theory Spec2Isabelle
  imports Main "HOL-Library.Char_ord" "HOL-Library.Monad_Syntax"
begin

section \<open>Strings and the string built-ins the extractor calls\<close>

text \<open>
  A string is a list of code units; a \<^typ>\<open>char\<close> stands for one code unit below 256.
  Every pattern of the source names ASCII characters only, and the only non-ASCII unit
  below 256 that the patterns treat specially is the no-break space (160), which
  \<^verbatim>\<open>\s\<close> and \<^verbatim>\<open>trim\<close> count as white space.
\<close>

definition isDigitChar :: "char \<Rightarrow> bool" where
  "isDigitChar ch = (CHR ''0'' \<le> ch \<and> ch \<le> CHR ''9'')"

definition isSpaceChar :: "char \<Rightarrow> bool" where
  "isSpaceChar ch = (of_char ch \<in> {9, 10, 11, 12, 13, 32, 160 :: nat})"

definition isWordChar :: "char \<Rightarrow> bool" where
  "isWordChar ch = ((CHR ''a'' \<le> ch \<and> ch \<le> CHR ''z'') \<or> (CHR ''A'' \<le> ch \<and> ch \<le> CHR ''Z'')
      \<or> isDigitChar ch \<or> ch = CHR ''_'')"

definition upperChar :: "char \<Rightarrow> char" where
  "upperChar ch = (if CHR ''a'' \<le> ch \<and> ch \<le> CHR ''z'' then char_of (of_char ch - (32::nat)) else ch)"

definition lowerChar :: "char \<Rightarrow> char" where
  "lowerChar ch =
     (let n = (of_char ch :: nat)
      in if (65 \<le> n \<and> n \<le> 90) \<or> (192 \<le> n \<and> n \<le> 222 \<and> n \<noteq> 215) then char_of (n + 32) else ch)"

text \<open>
  \<^verbatim>\<open>toLowerCase\<close> maps the ASCII and the Latin-1 capitals. \<^verbatim>\<open>toUpperCase\<close> is only ever
  applied to text matched by \<^verbatim>\<open>[A-Za-z0-9\-\/]\<close> classes, so its ASCII part is all
  that the source can reach.
\<close>

definition toLowerCase :: "string \<Rightarrow> string" where
  "toLowerCase s = map lowerChar s"

definition toUpperCase :: "string \<Rightarrow> string" where
  "toUpperCase s = map upperChar s"

definition slice :: "string \<Rightarrow> nat \<Rightarrow> nat \<Rightarrow> string" where
  "slice s a b = take (b - a) (drop a s)"

definition trim :: "string \<Rightarrow> string" where
  "trim s = rev (dropWhile isSpaceChar (rev (dropWhile isSpaceChar s)))"

text \<open>\<^verbatim>\<open>hay.indexOf(needle)\<close> and \<^verbatim>\<open>hay.lastIndexOf(needle)\<close> on strings: -1 when absent.\<close>

fun indexOf_from :: "string \<Rightarrow> string \<Rightarrow> nat \<Rightarrow> int" where
  "indexOf_from hay needle i =
     (if take (length needle) hay = needle then int i
      else (case hay of [] \<Rightarrow> -1 | _ # rest \<Rightarrow> indexOf_from rest needle (Suc i)))"

definition indexOf :: "string \<Rightarrow> string \<Rightarrow> int" where
  "indexOf hay needle = indexOf_from hay needle 0"

fun lastIndexOf_from :: "string \<Rightarrow> string \<Rightarrow> nat \<Rightarrow> int" where
  "lastIndexOf_from hay needle 0 = (if take (length needle) hay = needle then 0 else -1)"
| "lastIndexOf_from hay needle (Suc i) =
     (if take (length needle) (drop (Suc i) hay) = needle then int (Suc i)
      else lastIndexOf_from hay needle i)"

definition lastIndexOf :: "string \<Rightarrow> string \<Rightarrow> int" where
  "lastIndexOf hay needle =
     (if length hay < length needle then -1
      else lastIndexOf_from hay needle (length hay - length needle))"

text \<open>\<^verbatim>\<open>arr.indexOf(v)\<close> on an array of strings.\<close>

fun arrayIndexOf_from :: "string list \<Rightarrow> string \<Rightarrow> nat \<Rightarrow> int" where
  "arrayIndexOf_from [] v i = -1"
| "arrayIndexOf_from (x # xs) v i = (if x = v then int i else arrayIndexOf_from xs v (Suc i))"

definition arrayIndexOf :: "string list \<Rightarrow> string \<Rightarrow> int" where
  "arrayIndexOf arr v = arrayIndexOf_from arr v 0"

text \<open>
  \<^verbatim>\<open>s.split(/\s+/)\<close>: the pieces between maximal runs of white space; a leading or a
  trailing run leaves an empty piece, and the empty string gives one empty piece.
\<close>

function splitSpaces :: "string \<Rightarrow> string list" where
  "splitSpaces [] = [[]]"
| "splitSpaces (ch # rest) =
     (if isSpaceChar ch then [] # splitSpaces (dropWhile isSpaceChar rest)
      else (case splitSpaces rest of
              [] \<Rightarrow> [[ch]]
            | t # ts \<Rightarrow> (ch # t) # ts))"
  by pat_completeness auto
termination
  by (relation "measure length") (auto simp: le_imp_less_Suc length_dropWhile_le)

text \<open>\<^verbatim>\<open>tokens.join(" ")\<close>.\<close>

fun joinSpace :: "string list \<Rightarrow> string" where
  "joinSpace [] = []"
| "joinSpace [t] = t"
| "joinSpace (t # ts) = t @ '' '' @ joinSpace ts"

text \<open>\<^verbatim>\<open>Number(numText)\<close> on a run of decimal digits.\<close>

definition digitValue :: "char \<Rightarrow> nat" where
  "digitValue ch = of_char ch - 48"

definition Number :: "string \<Rightarrow> nat" where
  "Number numText = foldl (\<lambda>acc ch. 10 * acc + digitValue ch) 0 numText"


section \<open>Regular expressions: a backtracking matcher\<close>

text \<open>
  The patterns of the source use literals, character classes, \<^verbatim>\<open>\d\<close>, \<^verbatim>\<open>\s\<close>,
  \<^verbatim>\<open>\b\<close>, \<^verbatim>\<open>^\<close>, \<^verbatim>\<open>$\<close>, groups, ordered alternation and greedy bounded or unbounded
  repetition. The matcher returns every way a pattern can match from a position, in the
  order in which a backtracking engine tries them; the engine's answer is the first.
\<close>

datatype cls_item = Single char | Range char char | Digit | Space

datatype rx =
    Empty
  | Chars "cls_item list"
  | Seq rx rx
  | Alt rx rx
  | Rep nat "nat option" rx
  | Grp nat rx
  | WordB
  | Bol
  | Eol

fun item_has :: "cls_item \<Rightarrow> char \<Rightarrow> bool" where
  "item_has (Single a) ch = (ch = a)"
| "item_has (Range a b) ch = (a \<le> ch \<and> ch \<le> b)"
| "item_has Digit ch = isDigitChar ch"
| "item_has Space ch = isSpaceChar ch"

text \<open>
  With the \<^verbatim>\<open>i\<close> flag a unit matches a class when some member of the class has the same
  canonical (upper-case) form; for the ASCII classes of the source that member is the
  unit itself or its other case.
\<close>

definition cls_match :: "bool \<Rightarrow> cls_item list \<Rightarrow> char \<Rightarrow> bool" where
  "cls_match ic items ch =
     list_ex (\<lambda>it. item_has it ch \<or> (ic \<and> (item_has it (upperChar ch) \<or> item_has it (lowerChar ch)))) items"

type_synonym caps = "(nat \<times> nat \<times> nat) list"
type_synonym mstate = "nat \<times> caps"

definition wordBoundary :: "string \<Rightarrow> nat \<Rightarrow> bool" where
  "wordBoundary s i =
     ((0 < i \<and> i \<le> length s \<and> isWordChar (s ! (i - 1))) \<noteq> (i < length s \<and> isWordChar (s ! i)))"

text \<open>
  Greedy repetition between \<open>lo\<close> and \<open>hi\<close> times: one more round first, stopping
  second; once \<open>lo\<close> rounds are done a round that matched the empty string is dropped.
\<close>

fun rep :: "(mstate \<Rightarrow> mstate list) \<Rightarrow> nat \<Rightarrow> nat \<Rightarrow> mstate \<Rightarrow> mstate list" where
  "rep body lo 0 st = [st]"
| "rep body lo (Suc n) st =
     concat (map (\<lambda>st'. if lo = 0 \<and> fst st' = fst st then [] else rep body (lo - 1) n st') (body st))
     @ (if lo = 0 then [st] else [])"

text \<open>
  An unbounded repetition is run with the bound \<open>lo\<close> plus the number of units left:
  after \<open>lo\<close> rounds every further round consumes a unit, so the bound is never the
  reason to stop.
\<close>

fun ms :: "bool \<Rightarrow> string \<Rightarrow> rx \<Rightarrow> mstate \<Rightarrow> mstate list" where
  "ms ic s Empty st = [st]"
| "ms ic s (Chars cl) st =
     (if fst st < length s \<and> cls_match ic cl (s ! fst st) then [(Suc (fst st), snd st)] else [])"
| "ms ic s (Seq a b) st = concat (map (ms ic s b) (ms ic s a st))"
| "ms ic s (Alt a b) st = ms ic s a st @ ms ic s b st"
| "ms ic s (Rep lo hi r) st =
     rep (ms ic s r) lo (case hi of Some h \<Rightarrow> h | None \<Rightarrow> lo + (length s - fst st)) st"
| "ms ic s (Grp k r) st = map (\<lambda>st'. (fst st', (k, fst st, fst st') # snd st')) (ms ic s r st)"
| "ms ic s WordB st = (if wordBoundary s (fst st) then [st] else [])"
| "ms ic s Bol st = (if fst st = 0 then [st] else [])"
| "ms ic s Eol st = (if fst st = length s then [st] else [])"

text \<open>Notation of the patterns: a literal word, a sequence of terms, alternatives.\<close>

fun lit :: "string \<Rightarrow> rx" where
  "lit [] = Empty"
| "lit [ch] = Chars [Single ch]"
| "lit (ch # w) = Seq (Chars [Single ch]) (lit w)"

fun seqs :: "rx list \<Rightarrow> rx" where
  "seqs [] = Empty"
| "seqs [r] = r"
| "seqs (r # rs) = Seq r (seqs rs)"

fun alts :: "rx list \<Rightarrow> rx" where
  "alts [] = Empty"
| "alts [r] = r"
| "alts (r # rs) = Alt r (alts rs)"

definition star :: "rx \<Rightarrow> rx" where "star r = Rep 0 None r"
definition plus :: "rx \<Rightarrow> rx" where "plus r = Rep 1 None r"
definition opt :: "rx \<Rightarrow> rx" where "opt r = Rep 0 (Some 1) r"

record regexp =
  pattern :: rx
  ignoreCase :: bool

text \<open>
  The result of a successful \<^verbatim>\<open>exec\<close>: \<open>index\<close> is \<^verbatim>\<open>m.index\<close> (always defined, so
  the source's \<^verbatim>\<open>m.index != null ? m.index : -1\<close> is \<open>index\<close>), \<open>m0\<close> is \<^verbatim>\<open>m[0]\<close>,
  and \<open>groups\<close> holds the text of the capture groups, latest first.
\<close>

record rmatch =
  index :: nat
  m0 :: string
  groups :: "(nat \<times> string) list"

definition grp :: "rmatch \<Rightarrow> nat \<Rightarrow> string" where
  "grp m k = (case map_of (groups m) k of Some t \<Rightarrow> t | None \<Rightarrow> [])"

definition matchAt :: "regexp \<Rightarrow> string \<Rightarrow> nat \<Rightarrow> rmatch option" where
  "matchAt re s i =
     (case ms (ignoreCase re) s (pattern re) (i, []) of
        [] \<Rightarrow> None
      | st # _ \<Rightarrow> Some \<lparr>index = i, m0 = slice s i (fst st),
                        groups = map (\<lambda>(k, a, b). (k, slice s a b)) (snd st)\<rparr>)"

text \<open>The search tries the start positions \<open>i\<close>, \<open>i + 1\<close>, ... up to the end of the input.\<close>

fun searchFrom :: "regexp \<Rightarrow> string \<Rightarrow> nat \<Rightarrow> nat \<Rightarrow> rmatch option" where
  "searchFrom re s i 0 = None"
| "searchFrom re s i (Suc n) =
     (case matchAt re s i of Some m \<Rightarrow> Some m | None \<Rightarrow> searchFrom re s (Suc i) n)"

text \<open>
  \<^verbatim>\<open>regex.exec(input)\<close> of a global pattern whose \<^verbatim>\<open>lastIndex\<close> is the third argument:
  past the end of the input it answers null.
\<close>

definition exec :: "regexp \<Rightarrow> string \<Rightarrow> nat \<Rightarrow> rmatch option" where
  "exec re s lastIndex = searchFrom re s lastIndex (Suc (length s) - lastIndex)"

text \<open>\<^verbatim>\<open>str.match(regex)\<close> and \<^verbatim>\<open>regex.test(str)\<close> of a pattern without the global flag.\<close>

definition matchStr :: "regexp \<Rightarrow> string \<Rightarrow> rmatch option" where
  "matchStr re s = searchFrom re s 0 (Suc (length s))"

definition test :: "regexp \<Rightarrow> string \<Rightarrow> bool" where
  "test re s = (matchStr re s \<noteq> None)"


section \<open>The patterns of \<^verbatim>\<open>extractLocoQuery.ts\<close>\<close>

definition sp :: rx where "sp = Chars [Space]"
definition digits35 :: rx where "digits35 = Rep 3 (Some 5) (Chars [Digit])"

definition modelTail :: "cls_item list" where
  "modelTail = [Range CHR ''A'' CHR ''Z'', Range CHR ''a'' CHR ''z'', Range CHR ''0'' CHR ''9'',
                Single CHR ''-'', Single CHR ''/'']"

text \<open>\<^verbatim>\<open>/\b[a-f0-9]{24}\b/gi\<close>\<close>

definition ASSET_ID_REGEX_GLOBAL :: regexp where
  "ASSET_ID_REGEX_GLOBAL =
     \<lparr>pattern = seqs [WordB, Rep 24 (Some 24) (Chars [Range CHR ''a'' CHR ''f'', Range CHR ''0'' CHR ''9'']), WordB],
      ignoreCase = True\<rparr>"

text \<open>\<^verbatim>\<open>/\b(loco|locomotive|unit|engine|locos|units|engines)\b(?:\s*(?:no\.?|number)?)\s*[:#\-]?\s*(\d{3,5})\b/gi\<close>\<close>

definition LOCO_KEYWORD_NUMBER_GLOBAL :: regexp where
  "LOCO_KEYWORD_NUMBER_GLOBAL =
     \<lparr>pattern = seqs
        [WordB,
         Grp 1 (alts [lit ''loco'', lit ''locomotive'', lit ''unit'', lit ''engine'',
                      lit ''locos'', lit ''units'', lit ''engines'']),
         WordB,
         seqs [star sp, opt (alts [seqs [lit ''no'', opt (lit ''.'')], lit ''number''])],
         star sp,
         opt (Chars [Single CHR '':'', Single CHR ''#'', Single CHR ''-'']),
         star sp,
         Grp 2 digits35,
         WordB],
      ignoreCase = True\<rparr>"

text \<open>\<^verbatim>\<open>/\b(loco|locomotive|unit|engine)(\d{3,5})\b/gi\<close>\<close>

definition LOCO_KEYWORD_NUMBER_CONCAT_GLOBAL :: regexp where
  "LOCO_KEYWORD_NUMBER_CONCAT_GLOBAL =
     \<lparr>pattern = seqs
        [WordB,
         Grp 1 (alts [lit ''loco'', lit ''locomotive'', lit ''unit'', lit ''engine'']),
         Grp 2 digits35,
         WordB],
      ignoreCase = True\<rparr>"

text \<open>\<^verbatim>\<open>/\b\d{3,5}\b/g\<close>, twice\<close>

definition LOCO_NUMBER_GLOBAL :: regexp where
  "LOCO_NUMBER_GLOBAL = \<lparr>pattern = seqs [WordB, digits35, WordB], ignoreCase = False\<rparr>"

definition LOCO_NUMBER_START_GLOBAL :: regexp where
  "LOCO_NUMBER_START_GLOBAL = \<lparr>pattern = seqs [WordB, digits35, WordB], ignoreCase = False\<rparr>"

text \<open>\<^verbatim>\<open>/\b(\d{3,5})([A-Za-z][A-Za-z0-9\-\/]{2,15})\b/g\<close>\<close>

definition LOCO_NAME_NOSPACE_GLOBAL :: regexp where
  "LOCO_NAME_NOSPACE_GLOBAL =
     \<lparr>pattern = seqs
        [WordB,
         Grp 1 digits35,
         Grp 2 (seqs [Chars [Range CHR ''A'' CHR ''Z'', Range CHR ''a'' CHR ''z''],
                      Rep 2 (Some 15) (Chars modelTail)]),
         WordB],
      ignoreCase = False\<rparr>"

text \<open>\<^verbatim>\<open>/\b[A-Z][A-Z0-9\-\/]{2,15}\b/g\<close>\<close>

definition MODEL_TOKEN_GLOBAL :: regexp where
  "MODEL_TOKEN_GLOBAL =
     \<lparr>pattern = seqs
        [WordB,
         Chars [Range CHR ''A'' CHR ''Z''],
         Rep 2 (Some 15) (Chars [Range CHR ''A'' CHR ''Z'', Range CHR ''0'' CHR ''9'',
                                 Single CHR ''-'', Single CHR ''/'']),
         WordB],
      ignoreCase = False\<rparr>"

text \<open>\<^verbatim>\<open>/\b(loco|locomotive|unit|engine)\b/\<close> of \<^verbatim>\<open>nearKeywords\<close>\<close>

definition NEAR_KEYWORDS_REGEX :: regexp where
  "NEAR_KEYWORDS_REGEX =
     \<lparr>pattern = seqs [WordB, Grp 1 (alts [lit ''loco'', lit ''locomotive'', lit ''unit'', lit ''engine'']), WordB],
      ignoreCase = False\<rparr>"

text \<open>\<^verbatim>\<open>/^(\s*-\s*days?\b|\s+days?\b|-\s*days?\b|d\b|d\s)/\<close> of \<^verbatim>\<open>isFollowedByDayish\<close>\<close>

definition days :: rx where "days = seqs [lit ''day'', opt (lit ''s''), WordB]"

definition DAYISH_REGEX :: regexp where
  "DAYISH_REGEX =
     \<lparr>pattern = seqs
        [Bol,
         Grp 1 (alts [seqs [star sp, lit ''-'', star sp, days],
                      seqs [plus sp, days],
                      seqs [lit ''-'', star sp, days],
                      seqs [lit ''d'', WordB],
                      seqs [lit ''d'', sp]])],
      ignoreCase = False\<rparr>"

text \<open>
  The patterns of \<^verbatim>\<open>looksLikeCountNumber\<close>:
  \<^verbatim>\<open>/\b(top|first|last|limit)\s*$/\<close>,
  \<^verbatim>\<open>/\b(show|list|display|get|give|find)\s*$/\<close>,
  \<^verbatim>\<open>/^\s*(inspections?|locos?|locomotives?|units?|engines?|records?|items?|results?)\b/\<close> and
  \<^verbatim>\<open>/\b(number\s+of|count\s+of)\s*$/\<close>.
\<close>

definition COUNT_LIMIT_REGEX :: regexp where
  "COUNT_LIMIT_REGEX =
     \<lparr>pattern = seqs [WordB, Grp 1 (alts [lit ''top'', lit ''first'', lit ''last'', lit ''limit'']), star sp, Eol],
      ignoreCase = False\<rparr>"

definition COUNT_VERB_REGEX :: regexp where
  "COUNT_VERB_REGEX =
     \<lparr>pattern = seqs [WordB, Grp 1 (alts [lit ''show'', lit ''list'', lit ''display'', lit ''get'',
                                           lit ''give'', lit ''find'']), star sp, Eol],
      ignoreCase = False\<rparr>"

definition COUNT_NOUN_REGEX :: regexp where
  "COUNT_NOUN_REGEX =
     \<lparr>pattern = seqs
        [Bol, star sp,
         Grp 1 (alts [seqs [lit ''inspection'', opt (lit ''s'')],
                      seqs [lit ''loco'', opt (lit ''s'')],
                      seqs [lit ''locomotive'', opt (lit ''s'')],
                      seqs [lit ''unit'', opt (lit ''s'')],
                      seqs [lit ''engine'', opt (lit ''s'')],
                      seqs [lit ''record'', opt (lit ''s'')],
                      seqs [lit ''item'', opt (lit ''s'')],
                      seqs [lit ''result'', opt (lit ''s'')]]),
         WordB],
      ignoreCase = False\<rparr>"

definition COUNT_OF_REGEX :: regexp where
  "COUNT_OF_REGEX =
     \<lparr>pattern = seqs
        [WordB,
         Grp 1 (alts [seqs [lit ''number'', plus sp, lit ''of''], seqs [lit ''count'', plus sp, lit ''of'']]),
         star sp, Eol],
      ignoreCase = False\<rparr>"

text \<open>
  \<^verbatim>\<open>/\b(due|overdue|inspection|inspections|expiry|expires|expiring|next|credit|out\s*of\s*use|status|upcoming|schedule|scheduled|pending|completed|history)\b/i\<close>
  of \<^verbatim>\<open>hasDomainContext\<close>
\<close>

definition DOMAIN_CONTEXT_REGEX :: regexp where
  "DOMAIN_CONTEXT_REGEX =
     \<lparr>pattern = seqs
        [WordB,
         Grp 1 (alts [lit ''due'', lit ''overdue'', lit ''inspection'', lit ''inspections'',
                      lit ''expiry'', lit ''expires'', lit ''expiring'', lit ''next'', lit ''credit'',
                      seqs [lit ''out'', star sp, lit ''of'', star sp, lit ''use''],
                      lit ''status'', lit ''upcoming'', lit ''schedule'', lit ''scheduled'',
                      lit ''pending'', lit ''completed'', lit ''history'']),
         WordB],
      ignoreCase = True\<rparr>"

text \<open>\<^verbatim>\<open>/^(\s+[A-Za-z][A-Za-z0-9\-\/]*(?:\s+[A-Za-z0-9][A-Za-z0-9\-\/]*){0,2})/\<close> of the name phrases\<close>

definition AFTER_NUMBER_REGEX :: regexp where
  "AFTER_NUMBER_REGEX =
     \<lparr>pattern = seqs
        [Bol,
         Grp 1 (seqs [plus sp,
                      Chars [Range CHR ''A'' CHR ''Z'', Range CHR ''a'' CHR ''z''],
                      star (Chars modelTail),
                      Rep 0 (Some 2)
                        (seqs [plus sp,
                               Chars [Range CHR ''A'' CHR ''Z'', Range CHR ''a'' CHR ''z'', Range CHR ''0'' CHR ''9''],
                               star (Chars modelTail)])])],
      ignoreCase = False\<rparr>"

text \<open>\<^verbatim>\<open>/[0-9\-\/]/\<close> and \<^verbatim>\<open>/^\d{3,5}\b/\<close>\<close>

definition MODELISH_REGEX :: regexp where
  "MODELISH_REGEX =
     \<lparr>pattern = Chars [Range CHR ''0'' CHR ''9'', Single CHR ''-'', Single CHR ''/''], ignoreCase = False\<rparr>"

definition NUMBERED_NAME_REGEX :: regexp where
  "NUMBERED_NAME_REGEX = \<lparr>pattern = seqs [Bol, digits35, WordB], ignoreCase = False\<rparr>"


section \<open>Helpers of the extractor\<close>

text \<open>The keys of \<^verbatim>\<open>NAME_STOPWORDS\<close>; every value is \<^verbatim>\<open>true\<close>.\<close>

definition NAME_STOPWORDS :: "string list" where
  "NAME_STOPWORDS =
    [''DAY'', ''DAYS'', ''TODAY'', ''TOMORROW'', ''YESTERDAY'',
     ''WEEK'', ''WEEKS'', ''MONTH'', ''MONTHS'', ''YEAR'', ''YEARS'',
     ''INSPECTION'', ''INSPECTIONS'', ''DUE'', ''NEXT'', ''DONE'',
     ''COMPLETED'', ''PENDING'', ''OVERDUE'', ''SCHEDULED'',
     ''LOCO'', ''LOCOMOTIVE'', ''UNIT'', ''ENGINE'', ''UNITS'', ''ENGINES'',
     ''PLEASE'', ''PLS'', ''PLZ'', ''THANKS'', ''THANK'', ''THANKYOU'',
     ''WITH'', ''AND'', ''VS'', ''OR'', ''COMPARED'', ''TO'',
     ''FOR'', ''FROM'', ''BY'', ''AT'', ''ON'', ''OF'',
     ''IN'', ''IS'', ''ARE'', ''WAS'', ''WERE'', ''BE'', ''BEEN'',
     ''THE'', ''A'', ''AN'', ''THIS'', ''THAT'', ''THESE'', ''THOSE'',
     ''HOW'', ''WHAT'', ''WHEN'', ''WHERE'', ''WHY'', ''WHO'', ''WHICH'',
     ''CAN'', ''COULD'', ''WILL'', ''WOULD'', ''SHOULD'', ''MAY'', ''MIGHT'',
     ''DO'', ''DOES'', ''DID'', ''HAVE'', ''HAS'', ''HAD'',
     ''GET'', ''FIND'', ''SHOW'', ''LIST'', ''GIVE'', ''TELL'']"

text \<open>
  \<^verbatim>\<open>NAME_STOPWORDS[word] === true\<close>: an inherited property of the object is not
  \<^verbatim>\<open>true\<close>, so the test holds for the listed keys only.
\<close>

definition isStopword :: "string \<Rightarrow> bool" where
  "isStopword word = (word \<in> set NAME_STOPWORDS)"

text \<open>
  \<^verbatim>\<open>uniq\<close> keeps its set in a plain object \<^verbatim>\<open>seen = {}\<close> and tests \<^verbatim>\<open>!seen[v]\<close>, which
  is already false for a name that every object inherits.
\<close>

definition objectPrototypeKeys :: "string list" where
  "objectPrototypeKeys =
    [''constructor'', ''hasOwnProperty'', ''isPrototypeOf'', ''propertyIsEnumerable'',
     ''toLocaleString'', ''toString'', ''valueOf'', ''__proto__'',
     ''__defineGetter__'', ''__defineSetter__'', ''__lookupGetter__'', ''__lookupSetter__'']"

fun uniq_loop :: "string list \<Rightarrow> string list \<Rightarrow> string list \<Rightarrow> string list" where
  "uniq_loop [] out seen = out"
| "uniq_loop (v # arr) out seen =
     (if \<not> (v \<in> set seen \<or> v \<in> set objectPrototypeKeys)
      then uniq_loop arr (out @ [v]) (v # seen)
      else uniq_loop arr out seen)"

definition uniq :: "string list \<Rightarrow> string list" where
  "uniq arr = uniq_loop arr [] []"

definition nearKeywords :: "string \<Rightarrow> nat \<Rightarrow> nat \<Rightarrow> nat \<Rightarrow> bool" where
  "nearKeywords input start end' window =
     (let left = start - window;
          right = min (length input) (end' + window);
          ctx = toLowerCase (slice input left right)
      in test NEAR_KEYWORDS_REGEX ctx)"

definition isFollowedByDayish :: "string \<Rightarrow> nat \<Rightarrow> bool" where
  "isFollowedByDayish input end' =
     (let tail = toLowerCase (slice input end' (min (length input) (end' + 10)))
      in test DAYISH_REGEX tail)"

definition looksLikeYear :: "nat \<Rightarrow> bool" where
  "looksLikeYear n = (n \<ge> 1900 \<and> n \<le> 2099)"

definition looksLikeCountNumber :: "string \<Rightarrow> nat \<Rightarrow> nat \<Rightarrow> bool" where
  "looksLikeCountNumber input start end' =
     (let left = toLowerCase (slice input (start - 20) start);
          right = toLowerCase (slice input end' (min (length input) (end' + 25)))
      in if test COUNT_LIMIT_REGEX left then True
         else if test COUNT_VERB_REGEX left \<and> test COUNT_NOUN_REGEX right then True
         else if test COUNT_OF_REGEX left then True
         else False)"

definition hasDomainContext :: "string \<Rightarrow> bool" where
  "hasDomainContext input = test DOMAIN_CONTEXT_REGEX input"


text \<open>The score of a generic candidate, as the callback of phase 2 computes it.\<close>

definition candidateScore :: "string \<Rightarrow> bool \<Rightarrow> nat \<Rightarrow> nat \<Rightarrow> nat" where
  "candidateScore input hasDomain start end' =
     (let near = nearKeywords input start end' 20;
          score0 = 0;
          score1 = (if near then score0 + 2 else score0);
          beforeStr = slice input (start - 2) start;
          score2 = (if indexOf beforeStr ''#'' \<ge> 0 then score1 + 1 else score1);
          score3 = (if hasDomain then score2 + 1 else score2)
      in score3)"


section \<open>The scanning loop\<close>

text \<open>
  \<^verbatim>\<open>forEachMatch\<close> resets \<^verbatim>\<open>lastIndex\<close> to 0 and loops while \<^verbatim>\<open>exec\<close> finds a match;
  \<^verbatim>\<open>exec\<close> leaves \<^verbatim>\<open>lastIndex\<close> at the end of the match and the loop adds one after an
  empty match. The callback's effect on the arrays it closes over is a function on a
  state. A loop that never ends has the value \<open>None\<close>.
\<close>

partial_function (option) forEachMatch_loop ::
  "string \<Rightarrow> regexp \<Rightarrow> (rmatch \<Rightarrow> 'st \<Rightarrow> 'st) \<Rightarrow> nat \<Rightarrow> 'st \<Rightarrow> 'st option" where
  "forEachMatch_loop input regex cb lastIndex st =
     (case exec regex input lastIndex of
        None \<Rightarrow> Some st
      | Some m \<Rightarrow>
          forEachMatch_loop input regex cb
            (if m0 m = [] then index m + length (m0 m) + 1 else index m + length (m0 m))
            (cb m st))"

declare forEachMatch_loop.simps [code]

definition forEachMatch :: "string \<Rightarrow> regexp \<Rightarrow> (rmatch \<Rightarrow> 'st \<Rightarrow> 'st) \<Rightarrow> 'st \<Rightarrow> 'st option" where
  "forEachMatch input regex cb st = forEachMatch_loop input regex cb 0 st"


section \<open>The three extractors\<close>

datatype Confidence = low | medium | high
datatype RawMatchKind = assetIdKind | locoNoKind | nameKind

text \<open>\<^verbatim>\<open>RawMatch\<close>: \<^verbatim>\<open>{kind, text, start, end}\<close>.\<close>

record RawMatch =
  kind :: RawMatchKind
  mtext :: string
  start :: nat
  end' :: nat

subsection \<open>\<^verbatim>\<open>extractAssetIds\<close>\<close>

definition assetIdCb :: "rmatch \<Rightarrow> string list \<times> RawMatch list \<Rightarrow> string list \<times> RawMatch list" where
  "assetIdCb m st =
     (let assetIds = fst st; matches = snd st;
          text = m0 m;
          start = index m;
          end' = start + length text
      in (assetIds @ [toLowerCase text],
          matches @ [\<lparr>kind = assetIdKind, mtext = text, start = start, end' = end'\<rparr>]))"

definition extractAssetIds :: "string \<Rightarrow> (string list \<times> RawMatch list) option" where
  "extractAssetIds input =
     do {
       st \<leftarrow> forEachMatch input ASSET_ID_REGEX_GLOBAL assetIdCb ([], []);
       Some (uniq (fst st), snd st)
     }"

subsection \<open>\<^verbatim>\<open>extractLocoNos\<close>\<close>

text \<open>
  Phases 1a and 1b share one callback body. \<^verbatim>\<open>trustedFromKeyword\<close> is written and
  never read, so it is left out.
\<close>

definition keywordNumberCb :: "rmatch \<Rightarrow> string list \<times> RawMatch list \<Rightarrow> string list \<times> RawMatch list" where
  "keywordNumberCb m st =
     (let locoNos = fst st; matches = snd st;
          numText = grp m 2;
          full = m0 m;
          fullStart = index m;
          numOffset = lastIndexOf (toLowerCase full) (toLowerCase numText);
          start = fullStart + nat (max 0 numOffset);
          end' = start + length numText
      in if arrayIndexOf locoNos numText < 0
         then (locoNos @ [numText],
               matches @ [\<lparr>kind = locoNoKind, mtext = numText, start = start, end' = end'\<rparr>])
         else st)"

record Candidate =
  numText :: string
  cstart :: nat
  cend :: nat
  score :: nat

definition genericNumberCb ::
  "string \<Rightarrow> bool \<Rightarrow> string list \<Rightarrow> rmatch \<Rightarrow> Candidate list \<Rightarrow> Candidate list" where
  "genericNumberCb input hasDomain locoNos m candidates =
     (let numText = m0 m;
          start = index m;
          end' = start + length numText
      in if arrayIndexOf locoNos numText \<ge> 0 then candidates
         else if isFollowedByDayish input end' then candidates
         else if looksLikeCountNumber input start end' then candidates
         else if looksLikeYear (Number numText) then candidates
         else candidates @ [\<lparr>numText = numText, cstart = start, cend = end',
                              score = candidateScore input hasDomain start end'\<rparr>])"

definition pushCandidate :: "Candidate \<Rightarrow> string list \<times> RawMatch list \<Rightarrow> string list \<times> RawMatch list" where
  "pushCandidate c st =
     (fst st @ [numText c],
      snd st @ [\<lparr>kind = locoNoKind, mtext = numText c, start = cstart c, end' = cend c\<rparr>])"

text \<open>The acceptance step after the generic pass: the single-candidate branch, else the loop.\<close>

definition acceptCandidates ::
  "Candidate list \<Rightarrow> string list \<times> RawMatch list \<Rightarrow> string list \<times> RawMatch list" where
  "acceptCandidates candidates st =
     (if length candidates = 1 \<and> score (candidates ! 0) \<ge> 1
      then pushCandidate (candidates ! 0) st
      else fold (\<lambda>c st'. if score c \<ge> 1 then pushCandidate c st' else st') candidates st)"

definition extractLocoNos :: "string \<Rightarrow> (string list \<times> RawMatch list) option" where
  "extractLocoNos input =
     do {
       let hasDomain = hasDomainContext input;
       st1 \<leftarrow> forEachMatch input LOCO_KEYWORD_NUMBER_GLOBAL keywordNumberCb ([], []);
       st2 \<leftarrow> forEachMatch input LOCO_KEYWORD_NUMBER_CONCAT_GLOBAL keywordNumberCb st1;
       candidates \<leftarrow> forEachMatch input LOCO_NUMBER_GLOBAL (genericNumberCb input hasDomain (fst st2)) [];
       let st3 = acceptCandidates candidates st2;
       Some (uniq (fst st3), snd st3)
     }"

subsection \<open>\<^verbatim>\<open>extractNames\<close>\<close>

text \<open>The test "looks model-ish": a digit, hyphen or slash, or at least two units and all upper case.\<close>

definition modelish :: "string \<Rightarrow> bool" where
  "modelish t = (test MODELISH_REGEX t \<or> (length t \<ge> 2 \<and> t = toUpperCase t))"

definition noSpaceNameCb :: "rmatch \<Rightarrow> string list \<times> RawMatch list \<Rightarrow> string list \<times> RawMatch list" where
  "noSpaceNameCb m st =
     (let names = fst st; matches = snd st;
          numPart = grp m 1;
          modelPart = grp m 2;
          start = index m;
          fullText = m0 m;
          end' = start + length fullText
      in if isStopword (toUpperCase modelPart) then st
         else if \<not> test MODELISH_REGEX modelPart \<and> \<not> (length modelPart \<ge> 2 \<and> modelPart = toUpperCase modelPart) then st
         else let normalizedPhrase = numPart @ '' '' @ modelPart
              in if arrayIndexOf names normalizedPhrase \<ge> 0 then st
                 else (names @ [normalizedPhrase],
                       matches @ [\<lparr>kind = nameKind, mtext = fullText, start = start, end' = end'\<rparr>]))"

text \<open>The first index from 1 on whose token is a stopword, or -1.\<close>

fun separatorIndex_from :: "string list \<Rightarrow> nat \<Rightarrow> int" where
  "separatorIndex_from [] i = -1"
| "separatorIndex_from (t # ts) i =
     (if isStopword (toUpperCase t) then int i else separatorIndex_from ts (Suc i))"

definition separatorIndex :: "string list \<Rightarrow> int" where
  "separatorIndex tokens = separatorIndex_from (drop 1 tokens) 1"

text \<open>\<^verbatim>\<open>while (tokens.length > 1 && isStopword(last.toUpperCase())) tokens.pop()\<close>\<close>

function popStopwords :: "string list \<Rightarrow> string list" where
  "popStopwords tokens =
     (if length tokens > 1 \<and> isStopword (toUpperCase (last tokens))
      then popStopwords (butlast tokens) else tokens)"
  by pat_completeness auto
termination
  by (relation "measure length") auto

declare popStopwords.simps [simp del]

definition namePhraseCb :: "string \<Rightarrow> rmatch \<Rightarrow> string list \<times> RawMatch list \<Rightarrow> string list \<times> RawMatch list" where
  "namePhraseCb input m st =
     (let names = fst st; matches = snd st;
          numText = m0 m;
          start = index m;
          afterNum = drop (start + length numText) input
      in case matchStr AFTER_NUMBER_REGEX afterNum of
           None \<Rightarrow> st
         | Some afterMatch \<Rightarrow>
            (let afterText = grp afterMatch 1;
                 tokens = splitSpaces (trim (numText @ afterText));
                 second = toUpperCase (if length tokens > 1 then tokens ! 1 else [])
             in if isStopword second then st
                else let sep = separatorIndex tokens;
                         tokens1 = (if sep > 0 then take (nat sep) tokens else tokens)
                     in if \<not> list_ex modelish (drop 1 tokens1) then st
                        else let tokens2 = popStopwords tokens1
                             in if length tokens2 < 2 then st
                                else let phrase = joinSpace tokens2;
                                         end' = start + length phrase
                                     in if arrayIndexOf names phrase \<ge> 0 then st
                                        else (names @ [phrase],
                                              matches @ [\<lparr>kind = nameKind, mtext = phrase,
                                                          start = start, end' = end'\<rparr>])))"

definition modelTokenCb :: "string \<Rightarrow> rmatch \<Rightarrow> string list \<times> RawMatch list \<Rightarrow> string list \<times> RawMatch list" where
  "modelTokenCb input m st =
     (let names = fst st; matches = snd st;
          token = m0 m;
          start = index m;
          end' = start + length token;
          upper = toUpperCase token
      in if isStopword upper then st
         else if \<not> test MODELISH_REGEX token then st
         else if \<not> nearKeywords input start end' 25 then st
         else if list_ex (\<lambda>n. indexOf n token \<ge> 0) names then st
         else (names @ [token],
               matches @ [\<lparr>kind = nameKind, mtext = token, start = start, end' = end'\<rparr>]))"

definition extractNames :: "string \<Rightarrow> (string list \<times> RawMatch list) option" where
  "extractNames input =
     do {
       st0 \<leftarrow> forEachMatch input LOCO_NAME_NOSPACE_GLOBAL noSpaceNameCb ([], []);
       st1 \<leftarrow> forEachMatch input LOCO_NUMBER_START_GLOBAL (namePhraseCb input) st0;
       st2 \<leftarrow> forEachMatch input MODEL_TOKEN_GLOBAL (modelTokenCb input) st1;
       Some (uniq (fst st2), snd st2)
     }"


section \<open>\<^verbatim>\<open>computeConfidence\<close> and \<^verbatim>\<open>extractLocoQuery\<close>\<close>

definition computeConfidence :: "string list \<Rightarrow> string list \<Rightarrow> string list \<Rightarrow> Confidence" where
  "computeConfidence assetIds locoNos names =
     (if length assetIds > 0 then high
      else if length locoNos > 0 then medium
      else if length names > 0
      then (let hasNumberedName = list_ex (\<lambda>n. test NUMBERED_NAME_REGEX n) names
            in if hasNumberedName then medium else low)
      else low)"

text \<open>\<^verbatim>\<open>arr[0]\<close>: undefined on the empty array.\<close>

definition first :: "'a list \<Rightarrow> 'a option" where
  "first arr = (case arr of [] \<Rightarrow> None | x # _ \<Rightarrow> Some x)"

record LocoQuery =
  input :: string
  assetIds :: "string list"
  locoNos :: "string list"
  names :: "string list"
  assetId :: "string option"
  locoNo :: "string option"
  name :: "string option"
  rawMatches :: "RawMatch list"
  confidence :: Confidence

text \<open>
  \<^verbatim>\<open>Array.prototype.sort\<close> with the comparator \<^verbatim>\<open>a.start - b.start\<close> is a stable sort
  on \<open>start\<close>.
\<close>

definition extractLocoQuery :: "string \<Rightarrow> LocoQuery option" where
  "extractLocoQuery inp =
     do {
       a \<leftarrow> extractAssetIds inp;
       l \<leftarrow> extractLocoNos inp;
       n \<leftarrow> extractNames inp;
       let rawMatches = sort_key start (snd a @ snd l @ snd n);
       let confidence = computeConfidence (fst a) (fst l) (fst n);
       Some \<lparr>input = inp,
             assetIds = fst a,
             locoNos = fst l,
             names = fst n,
             assetId = first (fst a),
             locoNo = first (fst l),
             name = first (fst n),
             rawMatches = rawMatches,
             confidence = confidence\<rparr>
     }"


section \<open>The claims' own notions and auxiliary definitions\<close>

text \<open>
  "Begins with a 3-to-5-digit number at a word boundary", and the confidence as the
  specification words it, to be compared with \<^const>\<open>computeConfidence\<close>.
\<close>

definition beginsWithNumber :: "string \<Rightarrow> bool" where
  "beginsWithNumber x =
     (\<exists>k \<in> {3, 4, 5}. k \<le> length x \<and> (\<forall>p \<in> {0..<k}. isDigitChar (x ! p))
        \<and> (k = length x \<or> \<not> isWordChar (x ! k)))"

definition confidenceSpec :: "string list \<Rightarrow> string list \<Rightarrow> string list \<Rightarrow> Confidence" where
  "confidenceSpec ids nos nms =
     (if ids \<noteq> [] then high
      else if nos \<noteq> [] then medium
      else if nms \<noteq> [] \<and> (\<exists>x \<in> set nms. beginsWithNumber x) then medium
      else low)"

text \<open>For the proofs: the least number of units a pattern consumes, and a well-formed span.\<close>

fun minLen :: "rx \<Rightarrow> nat" where
  "minLen Empty = 0"
| "minLen (Chars cl) = 1"
| "minLen (Seq a b) = minLen a + minLen b"
| "minLen (Alt a b) = min (minLen a) (minLen b)"
| "minLen (Rep lo hi r) = (case hi of None \<Rightarrow> lo | Some h \<Rightarrow> min lo h) * minLen r"
| "minLen (Grp k r) = minLen r"
| "minLen WordB = 0"
| "minLen Bol = 0"
| "minLen Eol = 0"

definition okSpan :: "string \<Rightarrow> RawMatch \<Rightarrow> bool" where
  "okSpan inp r = (start r < end' r \<and> end' r \<le> length inp)"

definition okCand :: "string \<Rightarrow> Candidate \<Rightarrow> bool" where
  "okCand inp c = (cstart c < cend c \<and> cend c \<le> length inp)"

text \<open>
  Where an accepted number can come from: a match of one of the two keyword patterns
  (phases 1a and 1b), or a match of the generic pattern that passed every rejection and
  scored at least 1.
\<close>

definition keywordAttached :: "string \<Rightarrow> string \<Rightarrow> bool" where
  "keywordAttached inp n =
     (\<exists>L \<in> set [0..<Suc (length inp)].
        (case exec LOCO_KEYWORD_NUMBER_GLOBAL inp L of None \<Rightarrow> False | Some m \<Rightarrow> grp m 2 = n)
      \<or> (case exec LOCO_KEYWORD_NUMBER_CONCAT_GLOBAL inp L of None \<Rightarrow> False | Some m \<Rightarrow> grp m 2 = n))"

definition genericAccepted :: "string \<Rightarrow> string \<Rightarrow> bool" where
  "genericAccepted inp n =
     (\<exists>L \<in> set [0..<Suc (length inp)].
        (case exec LOCO_NUMBER_GLOBAL inp L of
           None \<Rightarrow> False
         | Some m \<Rightarrow> m0 m = n
             \<and> \<not> isFollowedByDayish inp (index m + length n)
             \<and> \<not> looksLikeCountNumber inp (index m) (index m + length n)
             \<and> \<not> looksLikeYear (Number n)
             \<and> candidateScore inp (hasDomainContext inp) (index m) (index m + length n) \<ge> 1))"

text \<open>
  The day-suffix patterns as the claim lists them: the text after the token, in lower
  case, begins with one of the suffixes, and the suffix ends the text or is followed by
  a unit that is not a word character.
\<close>

definition daySuffixes :: "string list" where
  "daySuffixes = [''-day'', ''-days'', '' day'', '' days'', ''d'']"

definition daySuffixFollows :: "string \<Rightarrow> nat \<Rightarrow> bool" where
  "daySuffixFollows inp e =
     (let rest = toLowerCase (drop e inp)
      in \<exists>w \<in> set daySuffixes. take (length w) rest = w
            \<and> (length rest = length w \<or> \<not> isWordChar (rest ! length w)))"

text \<open>
  The score as the claim words it: +2 for keyword proximity, +1 for a \<^verbatim>\<open>#\<close> immediately
  before the number, +1 for domain context in the whole input.
\<close>

definition claimedScore :: "string \<Rightarrow> nat \<Rightarrow> nat \<Rightarrow> nat" where
  "claimedScore inp s e =
     (if nearKeywords inp s e 20 then 2 else 0)
   + (if 0 < s \<and> s \<le> length inp \<and> inp ! (s - 1) = CHR ''#'' then 1 else 0)
   + (if hasDomainContext inp then 1 else 0)"

text \<open>
  Modelled from the spec: the entity resolver, \<^verbatim>\<open>resolve\<close> with its matching rules in
  strict priority order. The repository holds no code of it, only the strategy document;
  the definitions follow section 4.2 of the specification. A snapshot maps an
  \<open>assetId\<close> to a record with a name and a loco number. Rule 1 looks the extracted
  asset ids up as keys; rule 2 compares trimmed loco numbers; rule 3 compares names
  without regard to case; fuzzy matching and the numeric fallback are off, as by
  default. Within a rule one hit resolves, several hits are ambiguous, and no hit falls
  through to the next rule; when every rule falls through the outcome is a follow-up,
  whose wording depends on the freshness flag of the context. The aggregation of
  several independent identifiers into a resolved list is left out.
\<close>

record LocoRecord =
  recName :: string
  recLocoNo :: string


datatype FollowupKind = RefreshSuggested | NotInDatabase

datatype ResolutionOutcome =
    Resolved "string \<times> LocoRecord"
  | ResolvedMultiple "(string \<times> LocoRecord) list"
  | Ambiguous "(string \<times> LocoRecord) list"
  | NeedsFollowup FollowupKind






text \<open>
  For the proof that two matches of the keyword pattern cannot overlap: a property of
  spans that holds of the empty span and is closed under concatenation, and a pattern
  all of whose matches have the property.
\<close>

definition spanPred :: "(nat \<Rightarrow> nat \<Rightarrow> bool) \<Rightarrow> bool" where
  "spanPred Q = ((\<forall>a. Q a a) \<and> (\<forall>a k b. a \<le> k \<and> k \<le> b \<and> Q a k \<and> Q k b \<longrightarrow> Q a b))"

definition spanOK :: "(nat \<Rightarrow> nat \<Rightarrow> bool) \<Rightarrow> bool \<Rightarrow> string \<Rightarrow> rx \<Rightarrow> bool" where
  "spanOK Q ic s r =
     (\<forall>st st'. st' \<in> set (ms ic s r st) \<and> fst st \<le> length s \<longrightarrow> Q (fst st) (fst st'))"

definition isKwStart :: "char \<Rightarrow> bool" where
  "isKwStart ch = (ch \<in> set ''lLuUeE'')"

definition noKwStart :: "string \<Rightarrow> nat \<Rightarrow> nat \<Rightarrow> bool" where
  "noKwStart s a b =
     (\<forall>p. a \<le> p \<and> p < b \<longrightarrow> \<not> isKwStart (s ! p) \<or> (a < p \<and> isWordChar (s ! (p - 1))))"

definition allWord :: "string \<Rightarrow> nat \<Rightarrow> nat \<Rightarrow> bool" where
  "allWord s a b = (\<forall>p. a \<le> p \<and> p < b \<longrightarrow> isWordChar (s ! p))"

text \<open>The keyword pattern, cut after its keyword group.\<close>

definition kwWords :: rx where
  "kwWords = alts [lit ''loco'', lit ''locomotive'', lit ''unit'', lit ''engine'',
                   lit ''locos'', lit ''units'', lit ''engines'']"

definition kwTail :: rx where
  "kwTail = seqs
     [WordB,
      seqs [star sp, opt (alts [seqs [lit ''no'', opt (lit ''.'')], lit ''number''])],
      star sp,
      opt (Chars [Single CHR '':'', Single CHR ''#'', Single CHR ''-'']),
      star sp,
      Grp 2 digits35,
      WordB]"

text \<open>
  The matches that \<^verbatim>\<open>forEachMatch(input, re, cb)\<close> hands to its callback, in the order of
  the calls: \<^verbatim>\<open>re.exec\<close> from \<^verbatim>\<open>lastIndex\<close>, which then moves to the end of the match, and
  one further after an empty match. The scan makes at most \<open>length input + 1\<close> calls, so
  the bound on the number of rounds is never reached. \<open>firstOccurrences\<close> keeps the first
  occurrence of every value of a list, in the order of the list.
\<close>

fun scanMatches_from :: "regexp \<Rightarrow> string \<Rightarrow> nat \<Rightarrow> nat \<Rightarrow> rmatch list" where
  "scanMatches_from re s lastIndex 0 = []"
| "scanMatches_from re s lastIndex (Suc rounds) =
     (case exec re s lastIndex of
        None \<Rightarrow> []
      | Some m \<Rightarrow>
          m # scanMatches_from re s
                (if m0 m = [] then index m + length (m0 m) + 1 else index m + length (m0 m)) rounds)"

definition scanMatches :: "regexp \<Rightarrow> string \<Rightarrow> rmatch list" where
  "scanMatches re s = scanMatches_from re s 0 (length s + 2)"

definition firstOccurrences :: "'a list \<Rightarrow> 'a list" where
  "firstOccurrences xs = rev (remdups (rev xs))"

text \<open>A match of the generic pattern that passes the three rejections and scores at least 1.\<close>

definition genericKept :: "string \<Rightarrow> rmatch \<Rightarrow> bool" where
  "genericKept inp m =
     (\<not> isFollowedByDayish inp (index m + length (m0 m))
      \<and> \<not> looksLikeCountNumber inp (index m) (index m + length (m0 m))
      \<and> \<not> looksLikeYear (Number (m0 m))
      \<and> 1 \<le> candidateScore inp (hasDomainContext inp) (index m) (index m + length (m0 m)))"

text \<open>
  What the three passes of \<^verbatim>\<open>extractNames\<close> push for one match, apart from the
  test against the names already collected. Phase 0 pushes \<^verbatim>\<open>numPart + " " + modelPart\<close>
  for a match it keeps; phase 1 builds a phrase from the tokens after the number, or
  returns early; phase 2 keeps a model token and pushes it unless it is a substring of a
  name collected so far.
\<close>

definition noSpaceKept :: "rmatch \<Rightarrow> bool" where
  "noSpaceKept m = (\<not> isStopword (toUpperCase (grp m 2)) \<and> modelish (grp m 2))"

definition noSpaceName :: "rmatch \<Rightarrow> string" where
  "noSpaceName m = grp m 1 @ '' '' @ grp m 2"

definition namePhrase :: "string \<Rightarrow> rmatch \<Rightarrow> string option" where
  "namePhrase inp m =
     (case matchStr AFTER_NUMBER_REGEX (drop (index m + length (m0 m)) inp) of
        None \<Rightarrow> None
      | Some afterMatch \<Rightarrow>
          (let tokens = splitSpaces (trim (m0 m @ grp afterMatch 1));
               second = toUpperCase (if length tokens > 1 then tokens ! 1 else [])
           in if isStopword second then None
              else let sep = separatorIndex tokens;
                       tokens1 = (if sep > 0 then take (nat sep) tokens else tokens)
                   in if \<not> list_ex modelish (drop 1 tokens1) then None
                      else let tokens2 = popStopwords tokens1
                           in if length tokens2 < 2 then None
                              else Some (joinSpace tokens2)))"

definition modelTokenKept :: "string \<Rightarrow> rmatch \<Rightarrow> bool" where
  "modelTokenKept inp m =
     (\<not> isStopword (toUpperCase (m0 m)) \<and> test MODELISH_REGEX (m0 m)
      \<and> nearKeywords inp (index m) (index m + length (m0 m)) 25)"

definition addModelToken :: "string \<Rightarrow> string list \<Rightarrow> string list" where
  "addModelToken t ns = (if list_ex (\<lambda>n. indexOf n t \<ge> 0) ns then ns else ns @ [t])"


section \<open>Facts about the matcher, the scanning loop and the extractors\<close>

lemma rep_bounds:
  assumes body: "\<And>st st'. st' \<in> set (body st) \<Longrightarrow> fst st \<le> length s \<Longrightarrow> fst st \<le> fst st' \<and> fst st' \<le> length s"
  shows "st' \<in> set (rep body lo n st) \<Longrightarrow> fst st \<le> length s \<Longrightarrow> fst st \<le> fst st' \<and> fst st' \<le> length s"
proof (induction n arbitrary: lo st)
  case 0
  then show ?case by simp
next
  case (Suc n)
  from Suc.prems(1) consider
    (iter) mid where "mid \<in> set (body st)" "st' \<in> set (rep body (lo - 1) n mid)"
  | (stop) "st' = st"
    by (auto split: if_splits)
  then show ?case
  proof cases
    case iter
    from body[OF iter(1) Suc.prems(2)] have m: "fst st \<le> fst mid" "fst mid \<le> length s" by auto
    from Suc.IH[OF iter(2) m(2)] m show ?thesis by auto
  next
    case stop
    with Suc.prems(2) show ?thesis by simp
  qed
qed

lemma ms_bounds:
  "st' \<in> set (ms ic s r st) \<Longrightarrow> fst st \<le> length s \<Longrightarrow> fst st \<le> fst st' \<and> fst st' \<le> length s"
proof (induction r arbitrary: st st')
  case (Seq a b)
  from Seq.prems(1) obtain mid where mid: "mid \<in> set (ms ic s a st)" "st' \<in> set (ms ic s b mid)"
    by auto
  from Seq.IH(1)[OF mid(1) Seq.prems(2)] have m: "fst st \<le> fst mid" "fst mid \<le> length s" by auto
  from Seq.IH(2)[OF mid(2) m(2)] m show ?case by auto
next
  case (Rep lo hi r)
  have "st' \<in> set (rep (ms ic s r) lo (case hi of Some h \<Rightarrow> h | None \<Rightarrow> lo + (length s - fst st)) st)"
    using Rep.prems(1) by simp
  then show ?case
    by (rule rep_bounds[rotated 1]) (use Rep.prems(2) Rep.IH in auto)
next
  case (Grp k r)
  from Grp.prems(1) obtain e where e: "e \<in> set (ms ic s r st)" "fst st' = fst e"
    by auto
  from Grp.IH[OF e(1) Grp.prems(2)] e(2) show ?case by simp
qed (auto split: if_splits)


lemma matchAt_SomeD:
  assumes "matchAt re s i = Some m" "i \<le> length s"
  shows "index m = i" "i + length (m0 m) \<le> length s"
    "\<exists>st'. st' \<in> set (ms (ignoreCase re) s (pattern re) (i, [])) \<and> i \<le> fst st' \<and> fst st' \<le> length s
        \<and> m0 m = slice s i (fst st') \<and> length (m0 m) = fst st' - i
        \<and> groups m = map (\<lambda>(k, a, b). (k, slice s a b)) (snd st')"
proof -
  from assms(1) obtain st' rest where
    ms: "ms (ignoreCase re) s (pattern re) (i, []) = st' # rest" and
    m: "m = \<lparr>index = i, m0 = slice s i (fst st'), groups = map (\<lambda>(k, a, b). (k, slice s a b)) (snd st')\<rparr>"
    by (auto simp: matchAt_def split: list.splits)
  have mem: "st' \<in> set (ms (ignoreCase re) s (pattern re) (i, []))" using ms by simp
  from ms_bounds[OF mem] assms(2) have b: "i \<le> fst st'" "fst st' \<le> length s" by auto
  show "index m = i" using m by simp
  show "i + length (m0 m) \<le> length s" using m b by (simp add: slice_def)
  show "\<exists>st'. st' \<in> set (ms (ignoreCase re) s (pattern re) (i, [])) \<and> i \<le> fst st' \<and> fst st' \<le> length s
        \<and> m0 m = slice s i (fst st') \<and> length (m0 m) = fst st' - i
        \<and> groups m = map (\<lambda>(k, a, b). (k, slice s a b)) (snd st')"
    using mem b m by (intro exI[of _ st']) (simp add: slice_def)
qed

lemma searchFrom_SomeD:
  "searchFrom re s i n = Some m \<Longrightarrow>
     \<exists>k. i \<le> k \<and> k < i + n \<and> matchAt re s k = Some m \<and> (\<forall>k'. i \<le> k' \<and> k' < k \<longrightarrow> matchAt re s k' = None)"
proof (induction n arbitrary: i)
  case 0
  then show ?case by simp
next
  case (Suc n)
  show ?case
  proof (cases "matchAt re s i")
    case None
    with Suc.prems have "searchFrom re s (Suc i) n = Some m" by simp
    from Suc.IH[OF this] obtain k where k: "Suc i \<le> k" "k < Suc i + n" "matchAt re s k = Some m"
      "\<forall>k'. Suc i \<le> k' \<and> k' < k \<longrightarrow> matchAt re s k' = None" by blast
    have "\<forall>k'. i \<le> k' \<and> k' < k \<longrightarrow> matchAt re s k' = None"
    proof (intro allI impI)
      fix k' assume "i \<le> k' \<and> k' < k"
      then show "matchAt re s k' = None" using None k(4) by (cases "k' = i") auto
    qed
    with k show ?thesis by (intro exI[of _ k]) auto
  next
    case (Some a)
    with Suc.prems show ?thesis by (intro exI[of _ i]) auto
  qed
qed

lemma searchFrom_NoneD:
  "searchFrom re s i n = None \<Longrightarrow> i \<le> k \<Longrightarrow> k < i + n \<Longrightarrow> matchAt re s k = None"
proof (induction n arbitrary: i)
  case 0
  then show ?case by simp
next
  case (Suc n)
  show ?case
  proof (cases "k = i")
    case True
    with Suc.prems(1) show ?thesis by (auto split: option.splits)
  next
    case False
    from Suc.prems(1) have "searchFrom re s (Suc i) n = None" by (auto split: option.splits)
    from Suc.IH[OF this] False Suc.prems(2,3) show ?thesis by simp
  qed
qed

lemma exec_SomeD:
  assumes "exec re s L = Some m"
  shows "L \<le> index m" "index m + length (m0 m) \<le> length s" "matchAt re s (index m) = Some m"
    "\<And>k. L \<le> k \<Longrightarrow> k < index m \<Longrightarrow> matchAt re s k = None"
proof -
  from searchFrom_SomeD[OF assms[unfolded exec_def]] obtain k where
    k: "L \<le> k" "k < L + (Suc (length s) - L)" "matchAt re s k = Some m"
       "\<forall>k'. L \<le> k' \<and> k' < k \<longrightarrow> matchAt re s k' = None" by blast
  from k(1,2) have kl: "k \<le> length s" by simp
  from matchAt_SomeD(1,2)[OF k(3) kl] have ix: "index m = k" "k + length (m0 m) \<le> length s" by auto
  show "L \<le> index m" using ix k by simp
  show "index m + length (m0 m) \<le> length s" using ix by simp
  show "matchAt re s (index m) = Some m" using ix k by simp
  show "\<And>k. L \<le> k \<Longrightarrow> k < index m \<Longrightarrow> matchAt re s k = None" using ix k(4) by simp
qed

lemma exec_NoneD:
  "exec re s L = None \<Longrightarrow> L \<le> k \<Longrightarrow> k \<le> length s \<Longrightarrow> matchAt re s k = None"
  unfolding exec_def by (erule searchFrom_NoneD) auto

text \<open>A Hoare-style rule for the scanning loop; it also shows that the loop returns.\<close>

lemma forEachMatch_loop_rule:
  assumes init: "I L st"
    and step: "\<And>L st m. I L st \<Longrightarrow> exec re inp L = Some m \<Longrightarrow>
                 I (if m0 m = [] then index m + length (m0 m) + 1 else index m + length (m0 m)) (cb m st)"
    and fin: "\<And>L st. I L st \<Longrightarrow> exec re inp L = None \<Longrightarrow> Q st"
  shows "\<exists>st'. forEachMatch_loop inp re cb L st = Some st' \<and> Q st'"
  using init
proof (induction "Suc (length inp) - L" arbitrary: L st rule: less_induct)
  case less
  show ?case
  proof (cases "exec re inp L")
    case None
    then show ?thesis using fin[OF less.prems None] by (subst forEachMatch_loop.simps) simp
  next
    case (Some m)
    let ?L' = "if m0 m = [] then index m + length (m0 m) + 1 else index m + length (m0 m)"
    from exec_SomeD(1,2)[OF Some] have "L < ?L'" "L \<le> length inp"
      by (cases "m0 m"; auto)+
    then have "Suc (length inp) - ?L' < Suc (length inp) - L" by linarith
    from less.hyps[OF this step[OF less.prems Some]]
    show ?thesis using Some by (subst forEachMatch_loop.simps) simp
  qed
qed

lemma forEachMatch_rule:
  assumes "I 0 st"
    and "\<And>L st m. I L st \<Longrightarrow> exec re inp L = Some m \<Longrightarrow>
                 I (if m0 m = [] then index m + length (m0 m) + 1 else index m + length (m0 m)) (cb m st)"
    and "\<And>L st. I L st \<Longrightarrow> exec re inp L = None \<Longrightarrow> Q st"
  shows "\<exists>st'. forEachMatch inp re cb st = Some st' \<and> Q st'"
  unfolding forEachMatch_def using assms by (rule forEachMatch_loop_rule)

lemma forEachMatch_inv:
  assumes "P st"
    and "\<And>L st m. P st \<Longrightarrow> exec re inp L = Some m \<Longrightarrow> P (cb m st)"
  shows "\<exists>st'. forEachMatch inp re cb st = Some st' \<and> P st'"
  by (rule forEachMatch_rule[where I = "\<lambda>_. P"]) (use assms in auto)

lemma forEachMatch_total: "\<exists>st'. forEachMatch inp re cb st = Some st'"
  using forEachMatch_inv[where P = "\<lambda>_. True" and inp = inp and re = re and cb = cb and st = st] by auto

lemma extractAssetIds_total: "\<exists>r. extractAssetIds inp = Some r"
proof -
  obtain st where "forEachMatch inp ASSET_ID_REGEX_GLOBAL assetIdCb ([], []) = Some st"
    using forEachMatch_total by fastforce
  then show ?thesis by (simp add: extractAssetIds_def)
qed

lemma extractLocoNos_total: "\<exists>r. extractLocoNos inp = Some r"
proof -
  obtain st1 where 1: "forEachMatch inp LOCO_KEYWORD_NUMBER_GLOBAL keywordNumberCb ([], []) = Some st1"
    using forEachMatch_total by fastforce
  obtain st2 where 2: "forEachMatch inp LOCO_KEYWORD_NUMBER_CONCAT_GLOBAL keywordNumberCb st1 = Some st2"
    using forEachMatch_total by fastforce
  obtain cs where 3: "forEachMatch inp LOCO_NUMBER_GLOBAL (genericNumberCb inp (hasDomainContext inp) (fst st2)) [] = Some cs"
    using forEachMatch_total by fastforce
  show ?thesis using 1 2 3 by (simp add: extractLocoNos_def Let_def)
qed

lemma extractNames_total: "\<exists>r. extractNames inp = Some r"
proof -
  obtain st0 where 0: "forEachMatch inp LOCO_NAME_NOSPACE_GLOBAL noSpaceNameCb ([], []) = Some st0"
    using forEachMatch_total by fastforce
  obtain st1 where 1: "forEachMatch inp LOCO_NUMBER_START_GLOBAL (namePhraseCb inp) st0 = Some st1"
    using forEachMatch_total by fastforce
  obtain st2 where 2: "forEachMatch inp MODEL_TOKEN_GLOBAL (modelTokenCb inp) st1 = Some st2"
    using forEachMatch_total by fastforce
  show ?thesis using 0 1 2 by (simp add: extractNames_def)
qed

lemma extractLocoQuery_SomeD:
  assumes "extractLocoQuery inp = Some q"
  obtains a l n where "extractAssetIds inp = Some a" "extractLocoNos inp = Some l" "extractNames inp = Some n"
    "q = \<lparr>input = inp, assetIds = fst a, locoNos = fst l, names = fst n,
          assetId = first (fst a), locoNo = first (fst l), name = first (fst n),
          rawMatches = sort_key start (snd a @ snd l @ snd n),
          confidence = computeConfidence (fst a) (fst l) (fst n)\<rparr>"
  using assms by (auto simp: extractLocoQuery_def Let_def split: Option.bind_splits)

lemma extract_loco_4430_SD70M:
  "extractLocoQuery ''loco 4430 SD70M'' = Some
     \<lparr>input = ''loco 4430 SD70M'', assetIds = [], locoNos = [''4430''],
      names = [''4430 SD70M''], assetId = None, locoNo = Some ''4430'',
      name = Some ''4430 SD70M'',
      rawMatches =
        [\<lparr>kind = locoNoKind, mtext = ''4430'', start = 5, end' = 9\<rparr>,
         \<lparr>kind = nameKind, mtext = ''4430 SD70M'', start = 5, end' = 15\<rparr>],
      confidence = medium\<rparr>"
  by code_simp

lemma exec_loco_4430_SD70M:
  "exec LOCO_NUMBER_GLOBAL ''loco 4430 SD70M'' 0 = Some \<lparr>index = 5, m0 = ''4430'', groups = []\<rparr>"
  by code_simp

lemma rep_Chars_set:
  assumes "lo \<le> n" "i \<le> length s"
  shows "set (rep (ms ic s (Chars cl)) lo n (i, c)) =
         {(j, c) | j. i + lo \<le> j \<and> j \<le> i + n \<and> j \<le> length s
                     \<and> (\<forall>p. i \<le> p \<and> p < j \<longrightarrow> cls_match ic cl (s ! p))}"
  using assms
proof (induction n arbitrary: lo i)
  case 0
  then show ?case by auto
next
  case (Suc n)
  show ?case
  proof (cases "i < length s \<and> cls_match ic cl (s ! i)")
    case True
    have lo': "lo - 1 \<le> n" using Suc.prems(1) by simp
    have i': "Suc i \<le> length s" using True by simp
    have "set (rep (ms ic s (Chars cl)) lo (Suc n) (i, c)) =
          set (rep (ms ic s (Chars cl)) (lo - 1) n (Suc i, c)) \<union> (if lo = 0 then {(i, c)} else {})"
      using True by simp
    also have "\<dots> = {(j, c) | j. i + lo \<le> j \<and> j \<le> i + Suc n \<and> j \<le> length s
                     \<and> (\<forall>p. i \<le> p \<and> p < j \<longrightarrow> cls_match ic cl (s ! p))}"
      (is "?L = ?R")
    proof (intro set_eqI iffI)
      fix x assume "x \<in> ?L"
      then consider (a) "x \<in> set (rep (ms ic s (Chars cl)) (lo - 1) n (Suc i, c))" | (b) "lo = 0" "x = (i, c)"
        by (auto split: if_splits)
      then show "x \<in> ?R"
      proof cases
        case a
        then obtain j where j: "x = (j, c)" "Suc i + (lo - 1) \<le> j" "j \<le> Suc i + n" "j \<le> length s"
          "\<forall>p. Suc i \<le> p \<and> p < j \<longrightarrow> cls_match ic cl (s ! p)"
          unfolding Suc.IH[OF lo' i'] by blast
        have "\<forall>p. i \<le> p \<and> p < j \<longrightarrow> cls_match ic cl (s ! p)"
        proof (intro allI impI)
          fix p assume "i \<le> p \<and> p < j"
          then show "cls_match ic cl (s ! p)" using j(5) True by (cases "p = i") auto
        qed
        with j show ?thesis by auto
      next
        case b
        then show ?thesis using Suc.prems(2) by auto
      qed
    next
      fix x assume "x \<in> ?R"
      then obtain j where j: "x = (j, c)" "i + lo \<le> j" "j \<le> i + Suc n" "j \<le> length s"
        "\<forall>p. i \<le> p \<and> p < j \<longrightarrow> cls_match ic cl (s ! p)" by blast
      show "x \<in> ?L"
      proof (cases "j = i")
        case True
        then show ?thesis using j by auto
      next
        case False
        then have "Suc i + (lo - 1) \<le> j" "j \<le> Suc i + n" using j by auto
        moreover have "\<forall>p. Suc i \<le> p \<and> p < j \<longrightarrow> cls_match ic cl (s ! p)" using j(5) by auto
        ultimately have "x \<in> set (rep (ms ic s (Chars cl)) (lo - 1) n (Suc i, c))"
          unfolding Suc.IH[OF lo' i'] using j(1,4) by blast
        then show ?thesis by simp
      qed
    qed
    finally show ?thesis .
  next
    case False
    have "set (rep (ms ic s (Chars cl)) lo (Suc n) (i, c)) = (if lo = 0 then {(i, c)} else {})"
      using False by auto
    also have "\<dots> = {(j, c) | j. i + lo \<le> j \<and> j \<le> i + Suc n \<and> j \<le> length s
                     \<and> (\<forall>p. i \<le> p \<and> p < j \<longrightarrow> cls_match ic cl (s ! p))}"
      (is "?L = ?R")
    proof (intro set_eqI iffI)
      fix x assume "x \<in> ?L"
      then show "x \<in> ?R" using Suc.prems(2) by (auto split: if_splits)
    next
      fix x assume "x \<in> ?R"
      then obtain j where j: "x = (j, c)" "i + lo \<le> j" "j \<le> i + Suc n" "j \<le> length s"
        "\<forall>p. i \<le> p \<and> p < j \<longrightarrow> cls_match ic cl (s ! p)" by blast
      have "j = i"
      proof (rule ccontr)
        assume "j \<noteq> i"
        then have "i < j" using j(2) by simp
        then have "i < length s" "cls_match ic cl (s ! i)" using j(4,5) by auto
        with False show False by simp
      qed
      then show "x \<in> ?L" using j by auto
    qed
    finally show ?thesis .
  qed
qed

lemma searchFrom_eq_None_iff:
  "searchFrom re s i n = None \<longleftrightarrow> (\<forall>k. i \<le> k \<and> k < i + n \<longrightarrow> matchAt re s k = None)"
proof
  assume "searchFrom re s i n = None"
  then show "\<forall>k. i \<le> k \<and> k < i + n \<longrightarrow> matchAt re s k = None"
    using searchFrom_NoneD by blast
next
  assume a: "\<forall>k. i \<le> k \<and> k < i + n \<longrightarrow> matchAt re s k = None"
  show "searchFrom re s i n = None"
  proof (rule ccontr)
    assume "searchFrom re s i n \<noteq> None"
    then obtain m where "searchFrom re s i n = Some m" by auto
    from searchFrom_SomeD[OF this] a show False by auto
  qed
qed

lemma matchAt_eq_None_iff:
  "matchAt re s i = None \<longleftrightarrow> ms (ignoreCase re) s (pattern re) (i, []) = []"
  by (simp add: matchAt_def split: list.splits)

lemma test_iff:
  "test re s \<longleftrightarrow> (\<exists>k \<le> length s. ms (ignoreCase re) s (pattern re) (k, []) \<noteq> [])"
  unfolding test_def matchStr_def searchFrom_eq_None_iff matchAt_eq_None_iff
  by (auto simp: less_Suc_eq_le)

lemma cls_match_Digit [simp]: "cls_match False [Digit] ch = isDigitChar ch"
  by (simp add: cls_match_def)

lemma isDigit_isWord: "isDigitChar ch \<Longrightarrow> isWordChar ch"
  by (simp add: isWordChar_def)

lemma numbered_name_iff: "test NUMBERED_NAME_REGEX x \<longleftrightarrow> beginsWithNumber x"
proof -
  have "test NUMBERED_NAME_REGEX x \<longleftrightarrow>
        (\<exists>st \<in> set (ms False x digits35 (0, [])). wordBoundary x (fst st))"
    unfolding test_iff
    by (auto simp: NUMBERED_NAME_REGEX_def concat_eq_Nil_conv filter_empty_conv split: if_splits)
  also have "\<dots> \<longleftrightarrow> (\<exists>j. 3 \<le> j \<and> j \<le> 5 \<and> j \<le> length x
         \<and> (\<forall>p. p < j \<longrightarrow> isDigitChar (x ! p)) \<and> wordBoundary x j)"
    unfolding digits35_def by (simp add: rep_Chars_set) 
  also have "\<dots> \<longleftrightarrow> beginsWithNumber x"
  proof -
    have wb: "wordBoundary x j \<longleftrightarrow> (j = length x \<or> \<not> isWordChar (x ! j))"
      if "3 \<le> j" "j \<le> length x" "\<forall>p. p < j \<longrightarrow> isDigitChar (x ! p)" for j
    proof -
      have "isWordChar (x ! (j - 1))" using that by (intro isDigit_isWord) auto
      then show ?thesis using that by (auto simp: wordBoundary_def)
    qed
    show ?thesis
      unfolding beginsWithNumber_def
    proof
      assume "\<exists>j. 3 \<le> j \<and> j \<le> 5 \<and> j \<le> length x \<and> (\<forall>p. p < j \<longrightarrow> isDigitChar (x ! p)) \<and> wordBoundary x j"
      then obtain j where j: "3 \<le> j" "j \<le> 5" "j \<le> length x" "\<forall>p. p < j \<longrightarrow> isDigitChar (x ! p)" "wordBoundary x j"
        by blast
      have "j \<in> {3, 4, 5}" using j(1,2) by auto
      moreover have "j = length x \<or> \<not> isWordChar (x ! j)" using wb[OF j(1,3,4)] j(5) by simp
      ultimately show "\<exists>k\<in>{3, 4, 5}. k \<le> length x \<and> (\<forall>p\<in>{0..<k}. isDigitChar (x ! p)) \<and> (k = length x \<or> \<not> isWordChar (x ! k))"
        using j by (intro bexI[of _ j]) auto
    next
      assume "\<exists>k\<in>{3, 4, 5}. k \<le> length x \<and> (\<forall>p\<in>{0..<k}. isDigitChar (x ! p)) \<and> (k = length x \<or> \<not> isWordChar (x ! k))"
      then obtain k where k: "k \<in> {3, 4, 5}" "k \<le> length x" "\<forall>p\<in>{0..<k}. isDigitChar (x ! p)"
        "k = length x \<or> \<not> isWordChar (x ! k)" by blast
      have k35: "3 \<le> k" "k \<le> 5" using k(1) by auto
      have d: "\<forall>p. p < k \<longrightarrow> isDigitChar (x ! p)" using k(3) by auto
      have "wordBoundary x k" using wb[OF k35(1) k(2) d] k(4) by simp
      with k35 k(2) d show "\<exists>j. 3 \<le> j \<and> j \<le> 5 \<and> j \<le> length x \<and> (\<forall>p. p < j \<longrightarrow> isDigitChar (x ! p)) \<and> wordBoundary x j"
        by blast
    qed
  qed
  finally show ?thesis .
qed

lemma computeConfidence_spec: "computeConfidence ids nos nms = confidenceSpec ids nos nms"
  by (auto simp: computeConfidence_def confidenceSpec_def Let_def list_ex_iff numbered_name_iff)

lemma extract_empty:
  "extractLocoQuery '''' = Some
     \<lparr>input = '''', assetIds = [], locoNos = [], names = [], assetId = None, locoNo = None,
      name = None, rawMatches = [], confidence = low\<rparr>"
  by code_simp

lemma rep_minLen:
  assumes body: "\<And>st st'. st' \<in> set (body st) \<Longrightarrow> fst st + k \<le> fst st'"
  shows "st' \<in> set (rep body lo n st) \<Longrightarrow> fst st + min lo n * k \<le> fst st'"
proof (induction n arbitrary: lo st)
  case 0
  then show ?case by simp
next
  case (Suc n)
  from Suc.prems(1) consider
    (iter) mid where "mid \<in> set (body st)" "st' \<in> set (rep body (lo - 1) n mid)"
  | (stop) "lo = 0" "st' = st"
    by (auto split: if_splits)
  then show ?case
  proof cases
    case iter
    from body[OF iter(1)] have m: "fst st + k \<le> fst mid" .
    from Suc.IH[OF iter(2)] have "fst mid + min (lo - 1) n * k \<le> fst st'" .
    with m have "fst st + (k + min (lo - 1) n * k) \<le> fst st'" by simp
    moreover have "min lo (Suc n) * k \<le> k + min (lo - 1) n * k" by (cases lo) auto
    ultimately show ?thesis by linarith
  next
    case stop
    then show ?thesis by simp
  qed
qed

lemma ms_minLen: "st' \<in> set (ms ic s r st) \<Longrightarrow> fst st + minLen r \<le> fst st'"
proof (induction r arbitrary: st st')
  case (Seq a b)
  from Seq.prems obtain mid where mid: "mid \<in> set (ms ic s a st)" "st' \<in> set (ms ic s b mid)"
    by auto
  from Seq.IH(1)[OF mid(1)] Seq.IH(2)[OF mid(2)] show ?case by simp
next
  case (Alt a b)
  from Alt.prems have "st' \<in> set (ms ic s a st) \<or> st' \<in> set (ms ic s b st)" by simp
  then show ?case using Alt.IH by fastforce
next
  case (Rep lo hi r)
  let ?n = "case hi of Some h \<Rightarrow> h | None \<Rightarrow> lo + (length s - fst st)"
  have "st' \<in> set (rep (ms ic s r) lo ?n st)" using Rep.prems by simp
  then have "fst st + min lo ?n * minLen r \<le> fst st'"
    by (rule rep_minLen[rotated 1]) (rule Rep.IH)
  moreover have "min lo ?n = (case hi of None \<Rightarrow> lo | Some h \<Rightarrow> min lo h)"
    by (cases hi) auto
  ultimately show ?case by simp
next
  case (Grp k r)
  from Grp.prems obtain e where e: "e \<in> set (ms ic s r st)" "fst st' = fst e" by auto
  from Grp.IH[OF e(1)] e(2) show ?case by simp
qed (auto split: if_splits)

lemma exec_minLen:
  assumes "exec re s L = Some m"
  shows "minLen (pattern re) \<le> length (m0 m)"
proof -
  from exec_SomeD[OF assms] have m: "matchAt re s (index m) = Some m" "index m \<le> length s" by auto
  from matchAt_SomeD(3)[OF m] obtain st' where
    st': "st' \<in> set (ms (ignoreCase re) s (pattern re) (index m, []))" "length (m0 m) = fst st' - index m"
    by blast
  from ms_minLen[OF st'(1)] st'(2) show ?thesis by simp
qed

lemma seqs_Cons2 [simp]: "seqs (r # rs @ [x, y]) = Seq r (seqs (rs @ [x, y]))"
  by (cases rs) auto

lemma ms_seqs_group_end:
  "st' \<in> set (ms ic s (seqs (rs @ [Grp k g, WordB])) st) \<Longrightarrow> fst st \<le> length s \<Longrightarrow>
     \<exists>a c. snd st' = (k, a, fst st') # c \<and> fst st \<le> a \<and> a + minLen g \<le> fst st'"
proof (induction rs arbitrary: st)
  case Nil
  from Nil.prems(1) obtain e where e: "e \<in> set (ms ic s g st)" "st' = (fst e, (k, fst st, fst e) # snd e)"
    by (auto split: if_splits)
  from ms_minLen[OF e(1)] e(2) show ?case by auto
next
  case (Cons r rs)
  from Cons.prems(1) obtain mid where mid: "mid \<in> set (ms ic s r st)"
    "st' \<in> set (ms ic s (seqs (rs @ [Grp k g, WordB])) mid)" by auto
  from ms_bounds[OF mid(1) Cons.prems(2)] have b: "fst st \<le> fst mid" "fst mid \<le> length s" by auto
  from Cons.IH[OF mid(2) b(2)] b(1) show ?case by fastforce
qed

lemma matchAt_group_end:
  assumes m: "matchAt re s i = Some m" and i: "i \<le> length s"
    and pat: "pattern re = seqs (rs @ [Grp k g, WordB])"
  shows "\<exists>a. i \<le> a \<and> a + minLen g \<le> i + length (m0 m) \<and> grp m k = slice s a (i + length (m0 m))"
proof -
  from matchAt_SomeD(3)[OF m i] obtain st' where
    st': "st' \<in> set (ms (ignoreCase re) s (pattern re) (i, []))" "i \<le> fst st'" "fst st' \<le> length s"
         "length (m0 m) = fst st' - i" "groups m = map (\<lambda>(k, a, b). (k, slice s a b)) (snd st')"
    by blast
  from ms_seqs_group_end[OF st'(1)[unfolded pat]] i obtain a c where
    a: "snd st' = (k, a, fst st') # c" "i \<le> a" "a + minLen g \<le> fst st'" by auto
  have "grp m k = slice s a (fst st')" using st'(5) a(1) by (simp add: grp_def)
  moreover have "i + length (m0 m) = fst st'" using st'(2,4) by simp
  ultimately show ?thesis using a by auto
qed

lemma lastIndexOf_from_bound: "lastIndexOf_from hay needle k = -1 \<or> (0 \<le> lastIndexOf_from hay needle k \<and> lastIndexOf_from hay needle k \<le> int k)"
  by (induction k) auto

lemma lastIndexOf_bound:
  "lastIndexOf hay needle = -1 \<or> (0 \<le> lastIndexOf hay needle \<and> nat (lastIndexOf hay needle) + length needle \<le> length hay)"
proof (cases "length hay < length needle")
  case True
  then show ?thesis by (simp add: lastIndexOf_def)
next
  case False
  with lastIndexOf_from_bound[of hay needle "length hay - length needle"]
  show ?thesis by (auto simp: lastIndexOf_def)
qed

lemma keywordNumberCb_spans:
  assumes e: "exec re inp L = Some m"
    and pat: "pattern re = seqs (rs @ [Grp 2 digits35, WordB])"
    and inv: "\<forall>r \<in> set (snd st). okSpan inp r"
  shows "\<forall>r \<in> set (snd (keywordNumberCb m st)). okSpan inp r"
proof -
  from exec_SomeD[OF e] have m: "matchAt re inp (index m) = Some m" "index m + length (m0 m) \<le> length inp"
    by auto
  then have i: "index m \<le> length inp" by simp
  from matchAt_group_end[OF m(1) i pat] obtain a where
    a: "index m \<le> a" "a + minLen digits35 \<le> index m + length (m0 m)"
       "grp m 2 = slice inp a (index m + length (m0 m))" by blast
  have len: "3 \<le> length (grp m 2)" "length (grp m 2) \<le> length (m0 m)"
    using a m(2) by (auto simp: slice_def digits35_def)
  let ?r = "lastIndexOf (toLowerCase (m0 m)) (toLowerCase (grp m 2))"
  have "index m + nat (max 0 ?r) + length (grp m 2) \<le> length inp"
    using lastIndexOf_bound[of "toLowerCase (m0 m)" "toLowerCase (grp m 2)"] len m(2)
    by (auto simp: toLowerCase_def)
  then show ?thesis using inv len by (auto simp: keywordNumberCb_def Let_def okSpan_def)
qed

lemma uniq_loop_distinct:
  "distinct out \<Longrightarrow> set out \<subseteq> set seen \<Longrightarrow> distinct (uniq_loop arr out seen)"
proof (induction arr arbitrary: out seen)
  case Nil
  then show ?case by simp
next
  case (Cons v arr)
  show ?case
  proof (cases "v \<in> set seen \<or> v \<in> set objectPrototypeKeys")
    case True
    then show ?thesis using Cons.IH[OF Cons.prems] by auto
  next
    case False
    have "distinct (out @ [v])" "set (out @ [v]) \<subseteq> set (v # seen)"
      using False Cons.prems by auto
    from Cons.IH[OF this] False show ?thesis by simp
  qed
qed

lemma remdups_snoc: "remdups (ys @ [v]) = remdups (filter (\<lambda>x. x \<noteq> v) ys) @ [v]"
  by (induction ys) auto

lemma uniq_distinct: "distinct (uniq arr)"
  by (simp add: uniq_def uniq_loop_distinct)

lemma uniq_loop_first_occurrence:
  "uniq_loop arr out seen =
     out @ rev (remdups (rev (filter (\<lambda>v. v \<notin> set seen \<and> v \<notin> set objectPrototypeKeys) arr)))"
proof (induction arr arbitrary: out seen)
  case Nil
  then show ?case by simp
next
  case (Cons v arr)
  show ?case
  proof (cases "v \<in> set seen \<or> v \<in> set objectPrototypeKeys")
    case True
    then show ?thesis using Cons.IH[of out seen] by auto
  next
    case False
    have f: "filter (\<lambda>x. x \<noteq> v) (rev (filter (\<lambda>w. w \<notin> set seen \<and> w \<notin> set objectPrototypeKeys) arr))
           = rev (filter (\<lambda>w. w \<notin> set (v # seen) \<and> w \<notin> set objectPrototypeKeys) arr)"
      by (simp add: rev_filter [symmetric] conj_commute conj_left_commute cong: filter_cong)
    have "uniq_loop (v # arr) out seen = uniq_loop arr (out @ [v]) (v # seen)" using False by simp
    also have "\<dots> = (out @ [v]) @ rev (remdups (rev (filter (\<lambda>w. w \<notin> set (v # seen) \<and> w \<notin> set objectPrototypeKeys) arr)))"
      by (rule Cons.IH)
    also have "\<dots> = out @ rev (remdups (rev (filter (\<lambda>w. w \<notin> set seen \<and> w \<notin> set objectPrototypeKeys) (v # arr))))"
      using False by (simp add: remdups_snoc f)
    finally show ?thesis .
  qed
qed

lemma uniq_first_occurrence:
  "set arr \<inter> set objectPrototypeKeys = {} \<Longrightarrow> uniq arr = rev (remdups (rev arr))"
proof -
  assume a: "set arr \<inter> set objectPrototypeKeys = {}"
  then have "filter (\<lambda>v. v \<notin> set [] \<and> v \<notin> set objectPrototypeKeys) arr = arr"
    by (auto simp: filter_id_conv)
  then show ?thesis by (simp add: uniq_def uniq_loop_first_occurrence)
qed

lemma set_uniq: "set (uniq arr) = set arr - set objectPrototypeKeys"
  by (auto simp: uniq_def uniq_loop_first_occurrence)


lemma simple_span:
  assumes e: "exec re inp L = Some m" and len: "1 \<le> minLen (pattern re)"
  shows "index m < index m + length (m0 m)" "index m + length (m0 m) \<le> length inp"
  using exec_minLen[OF e] len exec_SomeD(2)[OF e] by auto

lemma extractAssetIds_spans:
  assumes "extractAssetIds inp = Some a"
  shows "\<forall>r \<in> set (snd a). okSpan inp r"
proof -
  have ml: "1 \<le> minLen (pattern ASSET_ID_REGEX_GLOBAL)" by (simp add: ASSET_ID_REGEX_GLOBAL_def)
  let ?P = "\<lambda>st :: string list \<times> RawMatch list. \<forall>r \<in> set (snd st). okSpan inp r"
  have "\<exists>st'. forEachMatch inp ASSET_ID_REGEX_GLOBAL assetIdCb ([], []) = Some st' \<and> ?P st'"
  proof (rule forEachMatch_inv)
    show "?P ([], [])" by simp
  next
    fix L m and st :: "string list \<times> RawMatch list"
    assume inv: "?P st" and e: "exec ASSET_ID_REGEX_GLOBAL inp L = Some m"
    from simple_span[OF e ml] inv
    show "?P (assetIdCb m st)"
      by (auto simp: assetIdCb_def Let_def okSpan_def)
  qed
  with assms show ?thesis by (auto simp: extractAssetIds_def split: Option.bind_splits)
qed

lemma acceptCandidates_eq:
  "acceptCandidates cands st =
     (fst st @ map numText (filter (\<lambda>c. score c \<ge> 1) cands),
      snd st @ map (\<lambda>c. \<lparr>kind = locoNoKind, mtext = numText c, start = cstart c, end' = cend c\<rparr>)
                 (filter (\<lambda>c. score c \<ge> 1) cands))"
proof -
  have f: "fold (\<lambda>c st'. if score c \<ge> 1 then pushCandidate c st' else st') cands st =
     (fst st @ map numText (filter (\<lambda>c. score c \<ge> 1) cands),
      snd st @ map (\<lambda>c. \<lparr>kind = locoNoKind, mtext = numText c, start = cstart c, end' = cend c\<rparr>)
                 (filter (\<lambda>c. score c \<ge> 1) cands))" for st
    by (induction cands arbitrary: st) (auto simp: pushCandidate_def)
  show ?thesis
  proof (cases "length cands = 1 \<and> score (cands ! 0) \<ge> 1")
    case True
    then obtain c where "cands = [c]" "score c \<ge> 1" by (cases cands) auto
    then show ?thesis by (simp add: acceptCandidates_def pushCandidate_def)
  next
    case False
    then show ?thesis unfolding acceptCandidates_def using f by auto 
  qed
qed

lemma extractLocoNos_spans:
  assumes "extractLocoNos inp = Some l"
  shows "\<forall>r \<in> set (snd l). okSpan inp r"
proof -
  let ?P = "\<lambda>st :: string list \<times> RawMatch list. \<forall>r \<in> set (snd st). okSpan inp r"
  from assms obtain st1 st2 cands where
    1: "forEachMatch inp LOCO_KEYWORD_NUMBER_GLOBAL keywordNumberCb ([], []) = Some st1" and
    2: "forEachMatch inp LOCO_KEYWORD_NUMBER_CONCAT_GLOBAL keywordNumberCb st1 = Some st2" and
    3: "forEachMatch inp LOCO_NUMBER_GLOBAL (genericNumberCb inp (hasDomainContext inp) (fst st2)) [] = Some cands" and
    l: "l = (uniq (fst (acceptCandidates cands st2)), snd (acceptCandidates cands st2))"
    by (auto simp: extractLocoNos_def Let_def split: Option.bind_splits)
  have "\<exists>st'. forEachMatch inp LOCO_KEYWORD_NUMBER_GLOBAL keywordNumberCb ([], []) = Some st' \<and> ?P st'"
  proof (rule forEachMatch_inv)
    show "?P ([], [])" by simp
  next
    fix L m and st :: "string list \<times> RawMatch list"
    assume inv: "?P st" and e: "exec LOCO_KEYWORD_NUMBER_GLOBAL inp L = Some m"
    show "?P (keywordNumberCb m st)"
      by (rule keywordNumberCb_spans[OF e _ inv,
            where rs = "[WordB,
         Grp 1 (alts [lit ''loco'', lit ''locomotive'', lit ''unit'', lit ''engine'',
                      lit ''locos'', lit ''units'', lit ''engines'']),
         WordB,
         seqs [star sp, opt (alts [seqs [lit ''no'', opt (lit ''.'')], lit ''number''])],
         star sp,
         opt (Chars [Single CHR '':'', Single CHR ''#'', Single CHR ''-'']),
         star sp]"])
        (simp add: LOCO_KEYWORD_NUMBER_GLOBAL_def)
  qed
  with 1 have p1: "?P st1" by auto
  have "\<exists>st'. forEachMatch inp LOCO_KEYWORD_NUMBER_CONCAT_GLOBAL keywordNumberCb st1 = Some st' \<and> ?P st'"
  proof (rule forEachMatch_inv)
    show "?P st1" by (rule p1)
  next
    fix L m and st :: "string list \<times> RawMatch list"
    assume inv: "?P st" and e: "exec LOCO_KEYWORD_NUMBER_CONCAT_GLOBAL inp L = Some m"
    show "?P (keywordNumberCb m st)"
      by (rule keywordNumberCb_spans[OF e _ inv,
            where rs = "[WordB, Grp 1 (alts [lit ''loco'', lit ''locomotive'', lit ''unit'', lit ''engine''])]"])
        (simp add: LOCO_KEYWORD_NUMBER_CONCAT_GLOBAL_def)
  qed
  with 2 have p2: "?P st2" by auto
  have ml: "1 \<le> minLen (pattern LOCO_NUMBER_GLOBAL)" by (simp add: LOCO_NUMBER_GLOBAL_def digits35_def)
  have "\<exists>cs. forEachMatch inp LOCO_NUMBER_GLOBAL (genericNumberCb inp (hasDomainContext inp) (fst st2)) [] = Some cs
          \<and> (\<forall>c \<in> set cs. okCand inp c)"
  proof (rule forEachMatch_inv)
    show "\<forall>c \<in> set []. okCand inp c" by simp
  next
    fix L cs m
    assume inv: "\<forall>c \<in> set cs. okCand inp c" and e: "exec LOCO_NUMBER_GLOBAL inp L = Some m"
    from simple_span[OF e ml] inv
    show "\<forall>c \<in> set (genericNumberCb inp (hasDomainContext inp) (fst st2) m cs). okCand inp c"
      by (auto simp: genericNumberCb_def Let_def okCand_def)
  qed
  with 3 have p3: "\<forall>c \<in> set cands. okCand inp c" by auto
  show ?thesis unfolding l acceptCandidates_eq using p2 p3 by (auto simp: okCand_def okSpan_def)
qed

lemma length_trim: "length (trim t) \<le> length t"
proof -
  have "length (trim t) \<le> length (dropWhile isSpaceChar t)"
    unfolding trim_def using length_dropWhile_le[of isSpaceChar "rev (dropWhile isSpaceChar t)"] by simp
  also have "\<dots> \<le> length t" by (rule length_dropWhile_le)
  finally show ?thesis .
qed

lemma length_joinSpace: "length (joinSpace ts) = sum_list (map length ts) + (length ts - 1)"
  by (induction ts rule: joinSpace.induct) auto

lemma splitSpaces_nonempty: "splitSpaces t \<noteq> []"
  by (induction t rule: splitSpaces.induct) (auto split: list.splits)

lemma length_joinSpace_splitSpaces: "length (joinSpace (splitSpaces t)) \<le> length t"
proof (induction t rule: splitSpaces.induct)
  case 1
  then show ?case by simp
next
  case (2 ch rest)
  show ?case
  proof (cases "isSpaceChar ch")
    case True
    obtain u us where u: "splitSpaces (dropWhile isSpaceChar rest) = u # us"
      using splitSpaces_nonempty by (cases "splitSpaces (dropWhile isSpaceChar rest)") auto
    have "length (joinSpace (splitSpaces (dropWhile isSpaceChar rest))) \<le> length (dropWhile isSpaceChar rest)"
      using 2(1)[OF True] .
    also have "\<dots> \<le> length rest" by (rule length_dropWhile_le)
    finally show ?thesis using True u by simp
  next
    case False
    obtain u us where u: "splitSpaces rest = u # us"
      using splitSpaces_nonempty by (cases "splitSpaces rest") auto
    from 2(2)[OF False] have "length (joinSpace (u # us)) \<le> length rest" using u by simp
    moreover have "length (joinSpace ((ch # u) # us)) = Suc (length (joinSpace (u # us)))"
      by (cases us) auto
    ultimately show ?thesis using False u by simp
  qed
qed

lemma sum_list_take_le: "sum_list (map length (take k ts)) \<le> sum_list (map length ts)"
proof (induction ts arbitrary: k)
  case Nil
  then show ?case by simp
next
  case (Cons t ts)
  then show ?case by (cases k) (auto intro: le_trans[OF Cons.IH])
qed

lemma length_joinSpace_take: "length (joinSpace (take k ts)) \<le> length (joinSpace ts)"
  unfolding length_joinSpace
  using sum_list_take_le[of k ts] by (intro add_mono) auto

lemma popStopwords_take: "\<exists>k. popStopwords ts = take k ts"
proof (induction ts rule: popStopwords.induct)
  case (1 tokens)
  show ?case
  proof (cases "length tokens > 1 \<and> isStopword (toUpperCase (last tokens))")
    case True
    from 1[OF True] obtain k where "popStopwords (butlast tokens) = take k (butlast tokens)" by blast
    then have "popStopwords tokens = take (min k (length tokens - 1)) tokens"
      using True by (subst popStopwords.simps) (simp add: butlast_conv_take min.commute)
    then show ?thesis by blast
  next
    case False
    then have "popStopwords tokens = take (length tokens) tokens"
      by (subst popStopwords.simps) auto
    then show ?thesis by blast
  qed
qed

lemma searchFrom_grp_length:
  assumes "searchFrom re s i n = Some m"
  shows "length (grp m k) \<le> length s"
proof -
  from searchFrom_SomeD[OF assms] obtain j where "matchAt re s j = Some m" by blast
  then obtain st' where g: "groups m = map (\<lambda>(k, a, b). (k, slice s a b)) (snd st')"
    by (auto simp: matchAt_def split: list.splits)
  show ?thesis
  proof (cases "map_of (groups m) k")
    case None
    then show ?thesis by (simp add: grp_def)
  next
    case (Some t)
    then have "(k, t) \<in> set (groups m)" by (rule map_of_SomeD)
    then obtain a b where "t = slice s a b" unfolding g by auto
    then show ?thesis using Some by (simp add: grp_def slice_def)
  qed
qed

lemma namePhrase_length:
  assumes am: "matchStr AFTER_NUMBER_REGEX afterNum = Some afterMatch"
    and ts: "tokens1 = take k (splitSpaces (trim (num @ grp afterMatch 1)))"
    and two: "\<not> length (popStopwords tokens1) < 2"
  shows "1 \<le> length (joinSpace (popStopwords tokens1))"
    "length (joinSpace (popStopwords tokens1)) \<le> length num + length afterNum"
proof -
  show "1 \<le> length (joinSpace (popStopwords tokens1))" using two by (simp add: length_joinSpace)
  obtain k' where k': "popStopwords tokens1 = take k' tokens1" using popStopwords_take by blast
  have "popStopwords tokens1 = take (min k' k) (splitSpaces (trim (num @ grp afterMatch 1)))"
    using k' ts by simp
  then have "length (joinSpace (popStopwords tokens1)) \<le> length (joinSpace (splitSpaces (trim (num @ grp afterMatch 1))))"
    by (simp only: length_joinSpace_take)
  also have "\<dots> \<le> length (trim (num @ grp afterMatch 1))" by (rule length_joinSpace_splitSpaces)
  also have "\<dots> \<le> length (num @ grp afterMatch 1)" by (rule length_trim)
  also have "\<dots> \<le> length num + length afterNum"
    using searchFrom_grp_length[OF am[unfolded matchStr_def], of 1] by simp
  finally show "length (joinSpace (popStopwords tokens1)) \<le> length num + length afterNum" .
qed

lemma namePhraseCb_spans:
  assumes e: "exec LOCO_NUMBER_START_GLOBAL inp L = Some m"
    and inv: "\<forall>r \<in> set (snd st). okSpan inp r"
  shows "\<forall>r \<in> set (snd (namePhraseCb inp m st)). okSpan inp r"
proof (cases "matchStr AFTER_NUMBER_REGEX (drop (index m + length (m0 m)) inp)")
  case None
  then show ?thesis using inv by (simp add: namePhraseCb_def Let_def)
next
  case (Some afterMatch)
  define tokens where "tokens = splitSpaces (trim (m0 m @ grp afterMatch 1))"
  define tokens1 where "tokens1 = (if separatorIndex tokens > 0 then take (nat (separatorIndex tokens)) tokens else tokens)"
  define tokens2 where "tokens2 = popStopwords tokens1"
  define phrase where "phrase = joinSpace tokens2"
  define second where "second = toUpperCase (if length tokens > 1 then tokens ! 1 else [])"
  have eq: "namePhraseCb inp m st =
     (if isStopword second then st
      else if \<not> list_ex modelish (drop 1 tokens1) then st
      else if length tokens2 < 2 then st
      else if arrayIndexOf (fst st) phrase \<ge> 0 then st
      else (fst st @ [phrase],
            snd st @ [\<lparr>kind = nameKind, mtext = phrase, start = index m, end' = index m + length phrase\<rparr>]))"
    unfolding namePhraseCb_def Let_def Some option.case tokens_def tokens1_def tokens2_def phrase_def second_def
    by (rule refl)
  have b: "index m + length (m0 m) \<le> length inp" using exec_SomeD(2)[OF e] .
  have t1: "tokens1 = take (if separatorIndex tokens > 0 then nat (separatorIndex tokens) else length tokens)
                        (splitSpaces (trim (m0 m @ grp afterMatch 1)))"
    by (simp add: tokens1_def tokens_def)
  show ?thesis
  proof (cases "length tokens2 < 2")
    case True
    then show ?thesis using inv unfolding eq by (simp only: if_True if_False split: if_splits) auto
  next
    case False
    from namePhrase_length[OF Some t1 False[unfolded tokens2_def]]
    have "1 \<le> length phrase" "length phrase \<le> length (m0 m) + (length inp - (index m + length (m0 m)))"
      by (simp_all add: phrase_def tokens2_def)
    with b have "0 < length phrase" "index m + length phrase \<le> length inp" by linarith+
    then have "okSpan inp \<lparr>kind = nameKind, mtext = phrase, start = index m, end' = index m + length phrase\<rparr>"
      by (simp add: okSpan_def)
    then show ?thesis using inv unfolding eq by (auto split: if_splits)
  qed
qed

lemma extractNames_spans:
  assumes "extractNames inp = Some n"
  shows "\<forall>r \<in> set (snd n). okSpan inp r"
proof -
  let ?P = "\<lambda>st :: string list \<times> RawMatch list. \<forall>r \<in> set (snd st). okSpan inp r"
  from assms obtain st0 st1 st2 where
    0: "forEachMatch inp LOCO_NAME_NOSPACE_GLOBAL noSpaceNameCb ([], []) = Some st0" and
    1: "forEachMatch inp LOCO_NUMBER_START_GLOBAL (namePhraseCb inp) st0 = Some st1" and
    2: "forEachMatch inp MODEL_TOKEN_GLOBAL (modelTokenCb inp) st1 = Some st2" and
    n: "n = (uniq (fst st2), snd st2)"
    by (auto simp: extractNames_def split: Option.bind_splits)
  have ml0: "1 \<le> minLen (pattern LOCO_NAME_NOSPACE_GLOBAL)"
    by (simp add: LOCO_NAME_NOSPACE_GLOBAL_def digits35_def)
  have ml2: "1 \<le> minLen (pattern MODEL_TOKEN_GLOBAL)"
    by (simp add: MODEL_TOKEN_GLOBAL_def)
  have "\<exists>st'. forEachMatch inp LOCO_NAME_NOSPACE_GLOBAL noSpaceNameCb ([], []) = Some st' \<and> ?P st'"
  proof (rule forEachMatch_inv)
    show "?P ([], [])" by simp
  next
    fix L m and st :: "string list \<times> RawMatch list"
    assume inv: "?P st" and e: "exec LOCO_NAME_NOSPACE_GLOBAL inp L = Some m"
    from simple_span[OF e ml0] inv
    show "?P (noSpaceNameCb m st)" by (auto simp: noSpaceNameCb_def Let_def okSpan_def)
  qed
  with 0 have p0: "?P st0" by auto
  have "\<exists>st'. forEachMatch inp LOCO_NUMBER_START_GLOBAL (namePhraseCb inp) st0 = Some st' \<and> ?P st'"
  proof (rule forEachMatch_inv)
    show "?P st0" by (rule p0)
  next
    fix L m and st :: "string list \<times> RawMatch list"
    assume inv: "?P st" and e: "exec LOCO_NUMBER_START_GLOBAL inp L = Some m"
    show "?P (namePhraseCb inp m st)" by (rule namePhraseCb_spans[OF e inv])
  qed
  with 1 have p1: "?P st1" by auto
  have "\<exists>st'. forEachMatch inp MODEL_TOKEN_GLOBAL (modelTokenCb inp) st1 = Some st' \<and> ?P st'"
  proof (rule forEachMatch_inv)
    show "?P st1" by (rule p1)
  next
    fix L m and st :: "string list \<times> RawMatch list"
    assume inv: "?P st" and e: "exec MODEL_TOKEN_GLOBAL inp L = Some m"
    from simple_span[OF e ml2] inv
    show "?P (modelTokenCb inp m st)" by (auto simp: modelTokenCb_def Let_def okSpan_def)
  qed
  with 2 have "?P st2" by auto
  then show ?thesis by (simp add: n)
qed

lemma exec_start_le: "exec re inp L = Some m \<Longrightarrow> L \<le> length inp"
  using exec_SomeD(1,2)[of re inp L m] by simp

lemma keywordNumberCb_origin:
  assumes e: "exec re inp L = Some m"
    and re: "re = LOCO_KEYWORD_NUMBER_GLOBAL \<or> re = LOCO_KEYWORD_NUMBER_CONCAT_GLOBAL"
    and inv: "\<forall>n \<in> set (fst st). keywordAttached inp n"
  shows "\<forall>n \<in> set (fst (keywordNumberCb m st)). keywordAttached inp n"
proof -
  have "keywordAttached inp (grp m 2)"
    unfolding keywordAttached_def
    using e re exec_start_le[OF e] by (intro bexI[of _ L]) auto
  then show ?thesis using inv by (auto simp: keywordNumberCb_def Let_def)
qed

lemma genericNumberCb_origin:
  assumes e: "exec LOCO_NUMBER_GLOBAL inp L = Some m"
    and inv: "\<forall>c \<in> set cs. score c \<ge> 1 \<longrightarrow> genericAccepted inp (numText c)"
  shows "\<forall>c \<in> set (genericNumberCb inp (hasDomainContext inp) nos m cs).
           score c \<ge> 1 \<longrightarrow> genericAccepted inp (numText c)"
proof -
  have "genericAccepted inp (m0 m)"
    if "\<not> isFollowedByDayish inp (index m + length (m0 m))"
       "\<not> looksLikeCountNumber inp (index m) (index m + length (m0 m))"
       "\<not> looksLikeYear (Number (m0 m))"
       "candidateScore inp (hasDomainContext inp) (index m) (index m + length (m0 m)) \<ge> 1"
    unfolding genericAccepted_def
    using e that exec_start_le[OF e] by (intro bexI[of _ L]) auto
  then show ?thesis using inv by (auto simp: genericNumberCb_def Let_def)
qed

lemma extractLocoNos_origin:
  assumes "extractLocoNos inp = Some l" "n \<in> set (fst l)"
  shows "keywordAttached inp n \<or> genericAccepted inp n"
proof -
  let ?P = "\<lambda>st :: string list \<times> RawMatch list. \<forall>n \<in> set (fst st). keywordAttached inp n"
  from assms(1) obtain st1 st2 cands where
    1: "forEachMatch inp LOCO_KEYWORD_NUMBER_GLOBAL keywordNumberCb ([], []) = Some st1" and
    2: "forEachMatch inp LOCO_KEYWORD_NUMBER_CONCAT_GLOBAL keywordNumberCb st1 = Some st2" and
    3: "forEachMatch inp LOCO_NUMBER_GLOBAL (genericNumberCb inp (hasDomainContext inp) (fst st2)) [] = Some cands" and
    l: "l = (uniq (fst (acceptCandidates cands st2)), snd (acceptCandidates cands st2))"
    by (auto simp: extractLocoNos_def Let_def split: Option.bind_splits)
  have "\<exists>st'. forEachMatch inp LOCO_KEYWORD_NUMBER_GLOBAL keywordNumberCb ([], []) = Some st' \<and> ?P st'"
  proof (rule forEachMatch_inv)
    show "?P ([], [])" by simp
  next
    fix L m and st :: "string list \<times> RawMatch list"
    assume inv: "?P st" and e: "exec LOCO_KEYWORD_NUMBER_GLOBAL inp L = Some m"
    show "?P (keywordNumberCb m st)" by (rule keywordNumberCb_origin[OF e _ inv]) simp
  qed
  with 1 have p1: "?P st1" by auto
  have "\<exists>st'. forEachMatch inp LOCO_KEYWORD_NUMBER_CONCAT_GLOBAL keywordNumberCb st1 = Some st' \<and> ?P st'"
  proof (rule forEachMatch_inv)
    show "?P st1" by (rule p1)
  next
    fix L m and st :: "string list \<times> RawMatch list"
    assume inv: "?P st" and e: "exec LOCO_KEYWORD_NUMBER_CONCAT_GLOBAL inp L = Some m"
    show "?P (keywordNumberCb m st)" by (rule keywordNumberCb_origin[OF e _ inv]) simp
  qed
  with 2 have p2: "?P st2" by auto
  have "\<exists>cs. forEachMatch inp LOCO_NUMBER_GLOBAL (genericNumberCb inp (hasDomainContext inp) (fst st2)) [] = Some cs
          \<and> (\<forall>c \<in> set cs. score c \<ge> 1 \<longrightarrow> genericAccepted inp (numText c))"
  proof (rule forEachMatch_inv)
    show "\<forall>c \<in> set ([] :: Candidate list). score c \<ge> 1 \<longrightarrow> genericAccepted inp (numText c)" by simp
  next
    fix L m and cs :: "Candidate list"
    assume inv: "\<forall>c \<in> set cs. score c \<ge> 1 \<longrightarrow> genericAccepted inp (numText c)"
      and e: "exec LOCO_NUMBER_GLOBAL inp L = Some m"
    show "\<forall>c \<in> set (genericNumberCb inp (hasDomainContext inp) (fst st2) m cs).
            score c \<ge> 1 \<longrightarrow> genericAccepted inp (numText c)"
      by (rule genericNumberCb_origin[OF e inv])
  qed
  with 3 have p3: "\<forall>c \<in> set cands. score c \<ge> 1 \<longrightarrow> genericAccepted inp (numText c)" by auto
  from assms(2) have "n \<in> set (fst st2) \<or> n \<in> numText ` {c \<in> set cands. score c \<ge> 1}"
    unfolding l acceptCandidates_eq by (auto simp: set_uniq)
  then show ?thesis using p2 p3 by auto
qed

lemma locoNos_origin:
  assumes "extractLocoQuery inp = Some q" "n \<in> set (locoNos q)"
  shows "keywordAttached inp n \<or> genericAccepted inp n"
  using assms by (elim extractLocoQuery_SomeD) (auto dest: extractLocoNos_origin)

lemma extract_status_4430SD70M:
  "extractLocoQuery ''Status for 4430SD70M'' = Some
     \<lparr>input = ''Status for 4430SD70M'', assetIds = [], locoNos = [],
      names = [''4430 SD70M''], assetId = None, locoNo = None, name = Some ''4430 SD70M'',
      rawMatches = [\<lparr>kind = nameKind, mtext = ''4430SD70M'', start = 11, end' = 20\<rparr>],
      confidence = medium\<rparr>"
  by code_simp

lemma exec_generic_status_4430SD70M:
  "exec LOCO_NUMBER_GLOBAL ''Status for 4430SD70M'' 0 = None"
  by code_simp

lemma extract_show_2024:
  "extractLocoQuery ''Show inspections in 2024'' = Some
     \<lparr>input = ''Show inspections in 2024'', assetIds = [], locoNos = [],
      names = [], assetId = None, locoNo = None, name = None,
      rawMatches = [], confidence = low\<rparr>"
  by code_simp

lemma domain_show_2024: "hasDomainContext ''Show inspections in 2024''"
  by code_simp

lemma exec_generic_show_2024:
  "exec LOCO_NUMBER_GLOBAL ''Show inspections in 2024'' 0 = Some \<lparr>index = 20, m0 = ''2024'', groups = []\<rparr>"
  by code_simp

lemma year_2024: "looksLikeYear (Number ''2024'')"
  by code_simp

lemma extract_loco_2024:
  "extractLocoQuery ''loco 2024'' = Some
     \<lparr>input = ''loco 2024'', assetIds = [], locoNos = [''2024''],
      names = [], assetId = None, locoNo = Some ''2024'', name = None,
      rawMatches = [\<lparr>kind = locoNoKind, mtext = ''2024'', start = 5, end' = 9\<rparr>],
      confidence = medium\<rparr>"
  by code_simp

lemma searchFrom_hit: "matchAt re s i \<noteq> None \<Longrightarrow> searchFrom re s i (Suc n) \<noteq> None"
  by (auto split: option.splits)

lemma test_at0: "ms (ignoreCase re) s (pattern re) (0, []) \<noteq> [] \<Longrightarrow> test re s"
  unfolding test_def matchStr_def
  by (rule searchFrom_hit) (simp add: matchAt_def split: list.splits)

lemmas rx_defs = star_def plus_def opt_def sp_def days_def
lemmas char_defs = cls_match_def wordBoundary_def isWordChar_def isSpaceChar_def isDigitChar_def

lemma dayish_suffix_end: "w \<in> set daySuffixes \<Longrightarrow> test DAYISH_REGEX w"
proof -
  have "test DAYISH_REGEX ''-day''" by (rule test_at0) (simp add: DAYISH_REGEX_def rx_defs char_defs)
  moreover have "test DAYISH_REGEX ''-days''" by (rule test_at0) (simp add: DAYISH_REGEX_def rx_defs char_defs)
  moreover have "test DAYISH_REGEX '' day''" by (rule test_at0) (simp add: DAYISH_REGEX_def rx_defs char_defs)
  moreover have "test DAYISH_REGEX '' days''" by (rule test_at0) (simp add: DAYISH_REGEX_def rx_defs char_defs)
  moreover have "test DAYISH_REGEX ''d''" by (rule test_at0) (simp add: DAYISH_REGEX_def rx_defs char_defs)
  moreover assume "w \<in> set daySuffixes"
  ultimately show ?thesis unfolding daySuffixes_def by auto
qed

lemma dayish_suffix_more:
  assumes "w \<in> set daySuffixes" "\<not> isWordChar c"
  shows "test DAYISH_REGEX (w @ c # t)"
proof -
  have "test DAYISH_REGEX (''-day'' @ c # t)"
    using assms(2) by (intro test_at0) (simp add: DAYISH_REGEX_def rx_defs char_defs)
  moreover have "test DAYISH_REGEX (''-days'' @ c # t)"
    using assms(2) by (intro test_at0) (simp add: DAYISH_REGEX_def rx_defs char_defs)
  moreover have "test DAYISH_REGEX ('' day'' @ c # t)"
    using assms(2) by (intro test_at0) (simp add: DAYISH_REGEX_def rx_defs char_defs)
  moreover have "test DAYISH_REGEX ('' days'' @ c # t)"
    using assms(2) by (intro test_at0) (simp add: DAYISH_REGEX_def rx_defs char_defs)
  moreover have "test DAYISH_REGEX (''d'' @ c # t)"
    using assms(2) by (intro test_at0) (simp add: DAYISH_REGEX_def rx_defs char_defs)
  ultimately show ?thesis using assms(1) unfolding daySuffixes_def by auto
qed

lemma dayish_tail: "toLowerCase (slice inp e (min (length inp) (e + 10))) = take 10 (toLowerCase (drop e inp))"
proof -
  have "min (length inp) (e + 10) - e = min (length (drop e inp)) 10" by auto
  moreover have "take (min (length (drop e inp)) 10) (drop e inp) = take 10 (drop e inp)"
    by (cases "length (drop e inp) \<le> 10") (simp_all add: min_def)
  ultimately have "slice inp e (min (length inp) (e + 10)) = take 10 (drop e inp)"
    unfolding slice_def by (simp only:)
  then show ?thesis by (simp add: toLowerCase_def take_map)
qed

lemma daySuffix_dayish:
  assumes "daySuffixFollows inp e"
  shows "isFollowedByDayish inp e"
proof -
  define rest where "rest = toLowerCase (drop e inp)"
  from assms obtain w where w: "w \<in> set daySuffixes" "take (length w) rest = w"
    "length rest = length w \<or> \<not> isWordChar (rest ! length w)"
    by (auto simp: daySuffixFollows_def Let_def rest_def)
  have lw: "length w \<le> 5" using w(1) by (auto simp: daySuffixes_def)
  have "test DAYISH_REGEX (take 10 rest)"
  proof (cases "length rest = length w")
    case True
    then have "rest = w" using w(2) by (metis order_refl take_all)
    then have "take 10 rest = w" using lw by simp
    then show ?thesis using dayish_suffix_end[OF w(1)] by simp
  next
    case False
    then have nw: "\<not> isWordChar (rest ! length w)" using w(3) by simp
    have "length w \<le> length rest" using w(2) by (metis length_take min.cobounded1 min.commute)
    then have lt: "length w < length rest" using False by simp
    have "rest = take (length w) rest @ drop (length w) rest" by simp
    also have "drop (length w) rest = rest ! length w # drop (Suc (length w)) rest"
      using lt by (simp add: Cons_nth_drop_Suc)
    finally have r: "rest = w @ rest ! length w # drop (Suc (length w)) rest" using w(2) by simp
    have "take 10 rest = w @ rest ! length w # take (9 - length w) (drop (Suc (length w)) rest)"
      by (subst r) (use lw in \<open>simp add: take_Cons'\<close>)
    then show ?thesis using dayish_suffix_more[OF w(1) nw] by simp
  qed
  then show ?thesis by (simp add: isFollowedByDayish_def Let_def dayish_tail rest_def)
qed

lemma extract_368_days:
  "extractLocoQuery ''locomotive had 368 days out of service'' = Some
     \<lparr>input = ''locomotive had 368 days out of service'', assetIds = [],
      locoNos = [], names = [], assetId = None, locoNo = None, name = None,
      rawMatches = [], confidence = low\<rparr>"
  by code_simp

lemma exec_generic_368_days:
  "exec LOCO_NUMBER_GLOBAL ''locomotive had 368 days out of service'' 0
     = Some \<lparr>index = 15, m0 = ''368'', groups = []\<rparr>"
  by code_simp

lemma suffix_368_days: "daySuffixFollows ''locomotive had 368 days out of service'' 18"
  by code_simp

lemma extract_hash_4430:
  "extractLocoQuery ''#4430'' = Some
     \<lparr>input = ''#4430'', assetIds = [], locoNos = [''4430''], names = [],
      assetId = None, locoNo = Some ''4430'', name = None,
      rawMatches = [\<lparr>kind = locoNoKind, mtext = ''4430'', start = 1, end' = 5\<rparr>],
      confidence = medium\<rparr>"
  by code_simp

lemma not_keyword_hash_4430: "\<not> keywordAttached ''#4430'' ''4430''"
  by code_simp

text \<open>The scan misses no occurrence of a pattern whose matches cannot overlap.\<close>

lemma forEachMatch_visits:
  assumes nonoverlap: "\<And>i m p. matchAt re inp i = Some m \<Longrightarrow> i \<le> length inp \<Longrightarrow> i < p \<Longrightarrow> p < i + length (m0 m)
                          \<Longrightarrow> matchAt re inp p = None"
    and handled: "\<And>L m st. exec re inp L = Some m \<Longrightarrow> R m (cb m st)"
    and mono: "\<And>m m' st. R m st \<Longrightarrow> R m (cb m' st)"
  shows "\<exists>st'. forEachMatch inp re cb st = Some st'
            \<and> (\<forall>p m. p \<le> length inp \<and> matchAt re inp p = Some m \<longrightarrow> R m st')"
proof (rule forEachMatch_rule[where I = "\<lambda>L st. \<forall>p m. p < L \<and> matchAt re inp p = Some m \<longrightarrow> R m st"])
  show "\<forall>p m. p < 0 \<and> matchAt re inp p = Some m \<longrightarrow> R m st" by simp
next
  fix L st m
  assume I: "\<forall>p m. p < L \<and> matchAt re inp p = Some m \<longrightarrow> R m st" and e: "exec re inp L = Some m"
  let ?L' = "if m0 m = [] then index m + length (m0 m) + 1 else index m + length (m0 m)"
  note x = exec_SomeD[OF e]
  show "\<forall>p m'. p < ?L' \<and> matchAt re inp p = Some m' \<longrightarrow> R m' (cb m st)"
  proof (intro allI impI)
    fix p m' assume a: "p < ?L' \<and> matchAt re inp p = Some m'"
    consider (old) "p < L" | (gap) "L \<le> p" "p < index m" | (here) "p = index m"
      | (inside) "index m < p" "p < index m + length (m0 m)"
      using a by (auto split: if_splits) linarith+
    then show "R m' (cb m st)"
    proof cases
      case old
      then show ?thesis using I a mono by blast
    next
      case gap
      then show ?thesis using x(4)[of p] a by simp
    next
      case here
      then have "m' = m" using a x(3) by simp
      then show ?thesis using handled[OF e] by simp
    next
      case inside
      have "index m \<le> length inp" using x(2) by simp
      from nonoverlap[OF x(3) this inside] a show ?thesis by simp
    qed
  qed
next
  fix L st
  assume I: "\<forall>p m. p < L \<and> matchAt re inp p = Some m \<longrightarrow> R m st" and e: "exec re inp L = None"
  show "\<forall>p m. p \<le> length inp \<and> matchAt re inp p = Some m \<longrightarrow> R m st"
  proof (intro allI impI)
    fix p m assume a: "p \<le> length inp \<and> matchAt re inp p = Some m"
    show "R m st"
    proof (cases "p < L")
      case True
      then show ?thesis using I a by blast
    next
      case False
      then show ?thesis using exec_NoneD[OF e, of p] a by simp
    qed
  qed
qed

lemma forEachMatch_both:
  assumes "\<exists>st'. forEachMatch inp re cb st = Some st' \<and> P st'" "forEachMatch inp re cb st = Some st1"
  shows "P st1"
  using assms by auto

text \<open>A match of the generic pattern is a run of 3 to 5 digits between two word boundaries.\<close>

lemma generic_matchD:
  assumes "matchAt LOCO_NUMBER_GLOBAL s i = Some m" "i \<le> length s"
  shows "wordBoundary s i" "3 \<le> length (m0 m)" "i + length (m0 m) \<le> length s"
    "\<And>p. i \<le> p \<Longrightarrow> p < i + length (m0 m) \<Longrightarrow> isDigitChar (s ! p)"
    "m0 m = slice s i (i + length (m0 m))"
proof -
  from matchAt_SomeD(3)[OF assms] obtain st' where
    st': "st' \<in> set (ms False s (seqs [WordB, digits35, WordB]) (i, []))" "i \<le> fst st'"
      "fst st' \<le> length s" "m0 m = slice s i (fst st')" "length (m0 m) = fst st' - i"
    by (auto simp: LOCO_NUMBER_GLOBAL_def)
  from st'(1) have wb: "wordBoundary s i" and d: "(fst st', snd st') \<in> set (ms False s digits35 (i, []))"
    by (auto split: if_splits)
  from d have dd: "i + 3 \<le> fst st'" "\<forall>p. i \<le> p \<and> p < fst st' \<longrightarrow> isDigitChar (s ! p)"
    unfolding digits35_def using assms(2) by (auto simp: rep_Chars_set)
  have e: "i + length (m0 m) = fst st'" using st'(2,5) by simp
  show "wordBoundary s i" by (rule wb)
  show "3 \<le> length (m0 m)" using dd(1) st'(5) by simp
  show "i + length (m0 m) \<le> length s" using e st'(3) by simp
  show "\<And>p. i \<le> p \<Longrightarrow> p < i + length (m0 m) \<Longrightarrow> isDigitChar (s ! p)" using dd(2) e by simp
  show "m0 m = slice s i (i + length (m0 m))" using st'(4) e by simp
qed

lemma generic_needs_boundary:
  "\<not> wordBoundary s p \<Longrightarrow> matchAt LOCO_NUMBER_GLOBAL s p = None"
  by (simp add: matchAt_def LOCO_NUMBER_GLOBAL_def)

lemma generic_nonoverlap:
  assumes "matchAt LOCO_NUMBER_GLOBAL s i = Some m" "i \<le> length s" "i < p" "p < i + length (m0 m)"
  shows "matchAt LOCO_NUMBER_GLOBAL s p = None"
proof (rule generic_needs_boundary)
  note g = generic_matchD[OF assms(1,2)]
  have "isDigitChar (s ! (p - 1))" "isDigitChar (s ! p)" using g(4)[of "p - 1"] g(4)[of p] assms(3,4) by auto
  then have "isWordChar (s ! (p - 1))" "isWordChar (s ! p)" by (auto intro: isDigit_isWord)
  moreover have "p < length s" using g(3) assms(4) by simp
  ultimately show "\<not> wordBoundary s p" using assms(3) by (auto simp: wordBoundary_def)
qed

lemma digits_not_inherited:
  "t \<noteq> [] \<Longrightarrow> isDigitChar (hd t) \<Longrightarrow> t \<notin> set objectPrototypeKeys"
  by (auto simp: objectPrototypeKeys_def isDigitChar_def)

lemma generic_m0_not_inherited:
  assumes "matchAt LOCO_NUMBER_GLOBAL s i = Some m" "i \<le> length s"
  shows "m0 m \<notin> set objectPrototypeKeys"
proof (rule digits_not_inherited)
  note g = generic_matchD[OF assms]
  show "m0 m \<noteq> []" using g(2) by auto
  have ne: "m0 m \<noteq> []" using g(2) by auto
  have "take (length (m0 m)) (drop i s) ! 0 = s ! i"
    using g(2,3) by (subst nth_take) (auto simp: nth_drop)
  then have "m0 m ! 0 = s ! i" using g(5) by (simp add: slice_def)
  then have "hd (m0 m) = s ! i" using ne by (simp add: hd_conv_nth)
  then show "isDigitChar (hd (m0 m))" using g(4)[of i] ne by simp
qed

declare indexOf_from.simps [simp del]

lemma indexOf_from_single: "0 \<le> indexOf_from hay [c] i \<longleftrightarrow> c \<in> set hay"
proof (induction hay arbitrary: i)
  case Nil
  show ?case by (subst indexOf_from.simps) simp
next
  case (Cons h hay)
  show ?case
  proof (cases "h = c")
    case True
    then show ?thesis by (subst indexOf_from.simps) simp
  next
    case False
    have "indexOf_from (h # hay) [c] i = indexOf_from hay [c] (Suc i)"
      using False by (subst indexOf_from.simps) simp
    then show ?thesis using Cons.IH[of "Suc i"] False by simp
  qed
qed

lemma arrayIndexOf_from_mem: "0 \<le> arrayIndexOf_from arr v i \<longleftrightarrow> v \<in> set arr"
  by (induction arr arbitrary: i) auto

lemma arrayIndexOf_mem: "0 \<le> arrayIndexOf arr v \<longleftrightarrow> v \<in> set arr"
  by (simp add: arrayIndexOf_def arrayIndexOf_from_mem)

lemma indexOf_single: "0 \<le> indexOf hay [c] \<longleftrightarrow> c \<in> set hay"
  by (simp add: indexOf_def indexOf_from_single)

lemma candidateScore_eq:
  "candidateScore inp hasDomain s e =
     (if nearKeywords inp s e 20 then 2 else 0)
   + (if CHR ''#'' \<in> set (slice inp (s - 2) s) then 1 else 0)
   + (if hasDomain then 1 else 0)"
  by (simp add: candidateScore_def Let_def indexOf_single)

lemma extractLocoNos_generic_complete:
  assumes l: "extractLocoNos inp = Some l"
    and p: "p \<le> length inp" and m: "matchAt LOCO_NUMBER_GLOBAL inp p = Some m"
    and ok: "\<not> isFollowedByDayish inp (p + length (m0 m))"
            "\<not> looksLikeCountNumber inp p (p + length (m0 m))"
            "\<not> looksLikeYear (Number (m0 m))"
            "candidateScore inp (hasDomainContext inp) p (p + length (m0 m)) \<ge> 1"
  shows "m0 m \<in> set (fst l)"
proof -
  from l obtain st1 st2 cands where
    3: "forEachMatch inp LOCO_NUMBER_GLOBAL (genericNumberCb inp (hasDomainContext inp) (fst st2)) [] = Some cands" and
    ld: "l = (uniq (fst (acceptCandidates cands st2)), snd (acceptCandidates cands st2))"
    by (auto simp: extractLocoNos_def Let_def split: Option.bind_splits)
  define R where "R = (\<lambda>(m :: rmatch) (cs :: Candidate list).
      m0 m \<in> set (fst st2)
    \<or> isFollowedByDayish inp (index m + length (m0 m))
    \<or> looksLikeCountNumber inp (index m) (index m + length (m0 m))
    \<or> looksLikeYear (Number (m0 m))
    \<or> (\<exists>c \<in> set cs. numText c = m0 m
          \<and> score c = candidateScore inp (hasDomainContext inp) (index m) (index m + length (m0 m))))"
  have "\<exists>cs. forEachMatch inp LOCO_NUMBER_GLOBAL (genericNumberCb inp (hasDomainContext inp) (fst st2)) [] = Some cs
          \<and> (\<forall>p m. p \<le> length inp \<and> matchAt LOCO_NUMBER_GLOBAL inp p = Some m \<longrightarrow> R m cs)"
  proof (rule forEachMatch_visits)
    fix i m p
    assume "matchAt LOCO_NUMBER_GLOBAL inp i = Some m" "i \<le> length inp" "i < p" "p < i + length (m0 m)"
    then show "matchAt LOCO_NUMBER_GLOBAL inp p = None" by (rule generic_nonoverlap)
  next
    fix L m and cs :: "Candidate list"
    assume "exec LOCO_NUMBER_GLOBAL inp L = Some m"
    show "R m (genericNumberCb inp (hasDomainContext inp) (fst st2) m cs)"
      unfolding R_def genericNumberCb_def Let_def
      by (auto simp: arrayIndexOf_mem split: if_splits)
  next
    fix m m' :: rmatch and cs :: "Candidate list"
    assume "R m cs"
    then show "R m (genericNumberCb inp (hasDomainContext inp) (fst st2) m' cs)"
      unfolding R_def genericNumberCb_def Let_def by auto
  qed
  with 3 have "R m cands" using p m by auto
  moreover have ix: "index m = p" using matchAt_SomeD(1)[OF m p] .
  ultimately consider (one) "m0 m \<in> set (fst st2)"
    | (two) c where "c \<in> set cands" "numText c = m0 m" "score c \<ge> 1"
    using ok unfolding R_def by auto
  then have "m0 m \<in> set (fst (acceptCandidates cands st2))"
  proof cases
    case one
    then show ?thesis by (simp add: acceptCandidates_eq)
  next
    case two
    then have "m0 m \<in> numText ` {c \<in> set cands. score c \<ge> 1}" by force
    then show ?thesis by (simp add: acceptCandidates_eq)
  qed
  moreover have "m0 m \<notin> set objectPrototypeKeys" using generic_m0_not_inherited[OF m p] .
  ultimately show ?thesis by (simp add: ld set_uniq)
qed


lemma extract_when_4430:
  "extractLocoQuery ''When is 4430 due next?'' = Some
     \<lparr>input = ''When is 4430 due next?'', assetIds = [], locoNos = [''4430''],
      names = [], assetId = None, locoNo = Some ''4430'', name = None,
      rawMatches = [\<lparr>kind = locoNoKind, mtext = ''4430'', start = 8, end' = 12\<rparr>],
      confidence = medium\<rparr>"
  by code_simp

lemma score_when_4430:
  "candidateScore ''When is 4430 due next?'' (hasDomainContext ''When is 4430 due next?'') 8 12 = 1"
  by code_simp

lemma near_when_4430: "\<not> nearKeywords ''When is 4430 due next?'' 8 12 20"
  by code_simp

lemma domain_when_4430: "hasDomainContext ''When is 4430 due next?''"
  by code_simp

lemma extract_hash_space_4430:
  "extractLocoQuery ''# 4430'' = Some
     \<lparr>input = ''# 4430'', assetIds = [], locoNos = [''4430''], names = [],
      assetId = None, locoNo = Some ''4430'', name = None,
      rawMatches = [\<lparr>kind = locoNoKind, mtext = ''4430'', start = 2, end' = 6\<rparr>],
      confidence = medium\<rparr>"
  by code_simp

lemma generic_hash_space_4430:
  "exec LOCO_NUMBER_GLOBAL ''# 4430'' 0 = Some \<lparr>index = 2, m0 = ''4430'', groups = []\<rparr>
   \<and> claimedScore ''# 4430'' 2 6 = 0
   \<and> \<not> keywordAttached ''# 4430'' ''4430''"
  by code_simp

lemma generic_hash_4430:
  "extractLocoQuery ''#4430'' = Some (the (extractLocoQuery ''#4430'')) \<and> (1::nat) \<le> length ''#4430''
   \<and> matchAt LOCO_NUMBER_GLOBAL ''#4430'' 1 = Some \<lparr>index = 1, m0 = ''4430'', groups = []\<rparr>
   \<and> \<not> isFollowedByDayish ''#4430'' (1 + length (m0 \<lparr>index = 1, m0 = ''4430'', groups = []\<rparr>))
   \<and> \<not> looksLikeCountNumber ''#4430'' 1 (1 + length (m0 \<lparr>index = 1, m0 = ''4430'', groups = []\<rparr>))
   \<and> \<not> looksLikeYear (Number (m0 \<lparr>index = 1, m0 = ''4430'', groups = []\<rparr>))
   \<and> 1 \<le> candidateScore ''#4430'' (hasDomainContext ''#4430'') 1
              (1 + length (m0 \<lparr>index = 1, m0 = ''4430'', groups = []\<rparr>))"
  by code_simp


lemma char_eq_nat: "ch = d \<longleftrightarrow> (of_char ch :: nat) = of_char d"
  by (simp add: of_char_eq_iff)

lemma isWordChar_nat:
  "isWordChar ch \<longleftrightarrow> (let n = (of_char ch :: nat) in (97 \<le> n \<and> n \<le> 122) \<or> (65 \<le> n \<and> n \<le> 90) \<or> (48 \<le> n \<and> n \<le> 57) \<or> n = 95)"
  by (simp add: isWordChar_def isDigitChar_def less_eq_char_def Let_def char_eq_nat[of ch])

lemma of_char_lt: "(of_char (ch :: char) :: nat) < 256"
proof -
  have "(of_char ch :: nat) mod 256 < 256" by simp
  then show ?thesis by (simp only: of_char_mod_256)
qed

lemma of_char_upperChar:
  "(of_char (upperChar ch) :: nat) = (let n = of_char ch in if 97 \<le> n \<and> n \<le> 122 then n - 32 else n)"
  by (auto simp: upperChar_def less_eq_char_def Let_def)

lemma of_char_lowerChar:
  "(of_char (lowerChar ch) :: nat) =
     (let n = of_char ch in if (65 \<le> n \<and> n \<le> 90) \<or> (192 \<le> n \<and> n \<le> 222 \<and> n \<noteq> 215) then n + 32 else n)"
  by (auto simp: lowerChar_def Let_def)

lemma isWordChar_upperChar [simp]: "isWordChar (upperChar ch) \<longleftrightarrow> isWordChar ch"
  unfolding isWordChar_nat of_char_upperChar Let_def by auto

lemma isWordChar_lowerChar [simp]: "isWordChar (lowerChar ch) \<longleftrightarrow> isWordChar ch"
  unfolding isWordChar_nat of_char_lowerChar Let_def by auto

lemma isDigitChar_nat: "isDigitChar ch \<longleftrightarrow> 48 \<le> (of_char ch :: nat) \<and> (of_char ch :: nat) \<le> 57"
  by (simp add: isDigitChar_def less_eq_char_def)

lemma isDigitChar_upperChar [simp]: "isDigitChar (upperChar ch) \<longleftrightarrow> isDigitChar ch"
  unfolding isDigitChar_nat of_char_upperChar Let_def by auto

lemma isDigitChar_lowerChar [simp]: "isDigitChar (lowerChar ch) \<longleftrightarrow> isDigitChar ch"
  unfolding isDigitChar_nat of_char_lowerChar Let_def by auto

lemma spanOK_I:
  "(\<And>st st'. st' \<in> set (ms ic s r st) \<Longrightarrow> fst st \<le> length s \<Longrightarrow> Q (fst st) (fst st')) \<Longrightarrow> spanOK Q ic s r"
  by (simp add: spanOK_def)

lemma spanOK_D:
  "spanOK Q ic s r \<Longrightarrow> st' \<in> set (ms ic s r st) \<Longrightarrow> fst st \<le> length s \<Longrightarrow> Q (fst st) (fst st')"
  unfolding spanOK_def by blast

lemma spanPred_refl: "spanPred Q \<Longrightarrow> Q a a"
  by (simp add: spanPred_def)

lemma spanPred_trans: "spanPred Q \<Longrightarrow> a \<le> k \<Longrightarrow> k \<le> b \<Longrightarrow> Q a k \<Longrightarrow> Q k b \<Longrightarrow> Q a b"
  unfolding spanPred_def by blast

lemma spanOK_zero:
  assumes "spanPred Q"
  shows "spanOK Q ic s Empty" "spanOK Q ic s WordB" "spanOK Q ic s Bol" "spanOK Q ic s Eol"
  using spanPred_refl[OF assms] by (auto simp: spanOK_def split: if_splits)

lemma spanOK_Chars:
  assumes "\<And>a. a < length s \<Longrightarrow> cls_match ic cl (s ! a) \<Longrightarrow> Q a (Suc a)"
  shows "spanOK Q ic s (Chars cl)"
  using assms by (auto simp: spanOK_def split: if_splits)

lemma spanOK_Seq:
  assumes Q: "spanPred Q" and a: "spanOK Q ic s a" and b: "spanOK Q ic s b"
  shows "spanOK Q ic s (Seq a b)"
proof (rule spanOK_I)
  fix st st' assume m: "st' \<in> set (ms ic s (Seq a b) st)" and l: "fst st \<le> length s"
  from m obtain mid where mid: "mid \<in> set (ms ic s a st)" "st' \<in> set (ms ic s b mid)" by auto
  from ms_bounds[OF mid(1) l] have b1: "fst st \<le> fst mid" "fst mid \<le> length s" by auto
  from ms_bounds[OF mid(2) b1(2)] have b2: "fst mid \<le> fst st'" by simp
  from spanPred_trans[OF Q b1(1) b2 spanOK_D[OF a mid(1) l] spanOK_D[OF b mid(2) b1(2)]]
  show "Q (fst st) (fst st')" .
qed

lemma spanOK_Alt:
  assumes "spanOK Q ic s a" "spanOK Q ic s b"
  shows "spanOK Q ic s (Alt a b)"
proof (rule spanOK_I)
  fix st st' assume m: "st' \<in> set (ms ic s (Alt a b) st)" and l: "fst st \<le> length s"
  from m have "st' \<in> set (ms ic s a st) \<or> st' \<in> set (ms ic s b st)" by simp
  then show "Q (fst st) (fst st')" using spanOK_D[OF assms(1) _ l] spanOK_D[OF assms(2) _ l] by blast
qed

lemma spanOK_Grp:
  assumes "spanOK Q ic s r"
  shows "spanOK Q ic s (Grp k r)"
proof (rule spanOK_I)
  fix st st' assume m: "st' \<in> set (ms ic s (Grp k r) st)" and l: "fst st \<le> length s"
  from m obtain e where e: "e \<in> set (ms ic s r st)" "fst st' = fst e" by auto
  from spanOK_D[OF assms e(1) l] e(2) show "Q (fst st) (fst st')" by simp
qed

lemma spanOK_rep:
  assumes Q: "spanPred Q" and r: "spanOK Q ic s r"
  shows "st' \<in> set (rep (ms ic s r) lo n st) \<Longrightarrow> fst st \<le> length s \<Longrightarrow> Q (fst st) (fst st')"
proof (induction n arbitrary: lo st)
  case 0
  then show ?case using spanPred_refl[OF Q] by simp
next
  case (Suc n)
  from Suc.prems(1) consider
    (iter) mid where "mid \<in> set (ms ic s r st)" "st' \<in> set (rep (ms ic s r) (lo - 1) n mid)"
  | (stop) "st' = st"
    by (auto split: if_splits)
  then show ?case
  proof cases
    case iter
    from ms_bounds[OF iter(1) Suc.prems(2)] have b1: "fst st \<le> fst mid" "fst mid \<le> length s" by auto
    have b2: "fst mid \<le> fst st'"
      using rep_bounds[where body = "ms ic s r" and s = s, OF _ iter(2) b1(2)] ms_bounds by blast
    from spanPred_trans[OF Q b1(1) b2 spanOK_D[OF r iter(1) Suc.prems(2)] Suc.IH[OF iter(2) b1(2)]]
    show ?thesis .
  next
    case stop
    then show ?thesis using spanPred_refl[OF Q] by simp
  qed
qed

lemma spanOK_Rep:
  assumes "spanPred Q" "spanOK Q ic s r"
  shows "spanOK Q ic s (Rep lo hi r)"
  by (rule spanOK_I) (auto intro: spanOK_rep[OF assms])

lemma spanOK_star: "spanPred Q \<Longrightarrow> spanOK Q ic s r \<Longrightarrow> spanOK Q ic s (star r)"
  unfolding star_def by (rule spanOK_Rep)

lemma spanOK_plus: "spanPred Q \<Longrightarrow> spanOK Q ic s r \<Longrightarrow> spanOK Q ic s (plus r)"
  unfolding plus_def by (rule spanOK_Rep)

lemma spanOK_opt: "spanPred Q \<Longrightarrow> spanOK Q ic s r \<Longrightarrow> spanOK Q ic s (opt r)"
  unfolding opt_def by (rule spanOK_Rep)

lemma spanOK_seqs:
  assumes "spanPred Q" "\<forall>r \<in> set rs. spanOK Q ic s r"
  shows "spanOK Q ic s (seqs rs)"
  using assms(2)
proof (induction rs rule: seqs.induct)
  case 1
  then show ?case using spanOK_zero(1)[OF assms(1)] by simp
next
  case (2 r)
  then show ?case by simp
next
  case (3 r v va)
  then show ?case using spanOK_Seq[OF assms(1)] by simp
qed

lemma spanOK_alts:
  assumes "spanPred Q" "\<forall>r \<in> set rs. spanOK Q ic s r"
  shows "spanOK Q ic s (alts rs)"
  using assms(2)
proof (induction rs rule: alts.induct)
  case 1
  then show ?case using spanOK_zero(1)[OF assms(1)] by simp
next
  case (2 r)
  then show ?case by simp
next
  case (3 r v va)
  then show ?case using spanOK_Alt by simp
qed

lemma spanOK_lit:
  assumes "spanPred Q" "\<forall>c \<in> set w. \<forall>a. a < length s \<and> cls_match ic [Single c] (s ! a) \<longrightarrow> Q a (Suc a)"
  shows "spanOK Q ic s (lit w)"
  using assms(2)
proof (induction w rule: lit.induct)
  case 1
  then show ?case using spanOK_zero(1)[OF assms(1)] by simp
next
  case (2 ch)
  then show ?case by (auto intro: spanOK_Chars)
next
  case (3 ch v va)
  have "spanOK Q ic s (Chars [Single ch])" using 3(2) by (auto intro: spanOK_Chars)
  moreover have "spanOK Q ic s (lit (v # va))" using 3 by simp
  ultimately show ?case using spanOK_Seq[OF assms(1)] by simp
qed


lemma KW_pattern: "pattern LOCO_KEYWORD_NUMBER_GLOBAL = Seq WordB (Seq (Grp 1 kwWords) kwTail)"
  by (simp add: LOCO_KEYWORD_NUMBER_GLOBAL_def kwWords_def kwTail_def)

lemma spanPred_noKwStart: "spanPred (noKwStart s)"
proof -
  have "noKwStart s a a" for a by (auto simp: noKwStart_def)
  moreover have "noKwStart s a b" if h: "a \<le> k" "k \<le> b" "noKwStart s a k" "noKwStart s k b" for a k b
    unfolding noKwStart_def
  proof (intro allI impI)
    fix p assume p: "a \<le> p \<and> p < b"
    show "\<not> isKwStart (s ! p) \<or> a < p \<and> isWordChar (s ! (p - 1))"
    proof (cases "p < k")
      case True
      then show ?thesis using h(3) p unfolding noKwStart_def by blast
    next
      case False
      then have "k \<le> p \<and> p < b" using p by simp
      then have "\<not> isKwStart (s ! p) \<or> k < p \<and> isWordChar (s ! (p - 1))"
        using h(4) unfolding noKwStart_def by blast
      then show ?thesis using h(1) by auto
    qed
  qed
  ultimately show ?thesis unfolding spanPred_def by blast
qed

lemma spanPred_allWord: "spanPred (allWord s)"
proof -
  have "allWord s a a" for a by (auto simp: allWord_def)
  moreover have "allWord s a b" if h: "allWord s a k" "allWord s k b" for a k b
    unfolding allWord_def
  proof (intro allI impI)
    fix p assume p: "a \<le> p \<and> p < b"
    show "isWordChar (s ! p)"
      using h p unfolding allWord_def by (cases "p < k") auto
  qed
  ultimately show ?thesis unfolding spanPred_def by blast
qed

lemma kwStart_eval:
  "list_all (\<lambda>ch. \<not> cls_match True [Space] ch \<and> \<not> cls_match True [Digit] ch
       \<and> \<not> cls_match True [Single CHR '':'', Single CHR ''#'', Single CHR ''-''] ch
       \<and> list_all (\<lambda>c. \<not> cls_match True [Single c] ch) ''no.mbr''
       \<and> isWordChar ch) ''lLuUeE''"
  by code_simp

lemma kwStart_facts:
  assumes "isKwStart ch"
  shows "\<not> cls_match True [Space] ch" "\<not> cls_match True [Digit] ch"
    "\<not> cls_match True [Single CHR '':'', Single CHR ''#'', Single CHR ''-''] ch"
    "\<And>c. c \<in> set ''no.mbr'' \<Longrightarrow> \<not> cls_match True [Single c] ch"
    "isWordChar ch"
  using assms kwStart_eval unfolding isKwStart_def list_all_iff by blast+


lemma noKwStart_atom:
  assumes "\<And>ch. isKwStart ch \<Longrightarrow> \<not> cls_match ic cl ch"
  shows "spanOK (noKwStart s) ic s (Chars cl)"
proof (rule spanOK_Chars)
  fix a assume "a < length s" "cls_match ic cl (s ! a)"
  then have "\<not> isKwStart (s ! a)" using assms by blast
  then show "noKwStart s a (Suc a)" by (auto simp: noKwStart_def less_Suc_eq)
qed

lemma noKwStart_single:
  assumes "c \<in> set ''no.mbr''" "a < length s" "cls_match True [Single c] (s ! a)"
  shows "noKwStart s a (Suc a)"
proof -
  have "\<not> isKwStart (s ! a)" using kwStart_facts(4)[OF _ assms(1)] assms(3) by blast
  then show ?thesis by (auto simp: noKwStart_def less_Suc_eq)
qed

lemma cls_match_single_word:
  assumes "isWordChar c" "cls_match True [Single c] ch"
  shows "isWordChar ch"
proof -
  from assms(2) have "ch = c \<or> upperChar ch = c \<or> lowerChar ch = c" by (auto simp: cls_match_def)
  then show ?thesis using assms(1) isWordChar_upperChar[of ch] isWordChar_lowerChar[of ch] by auto
qed

lemma number_word_eval: "list_all isWordChar ''number''"
  by code_simp

text \<open>The literal \<^verbatim>\<open>number\<close>: its \<^verbatim>\<open>u\<close> and \<^verbatim>\<open>e\<close> stand after a letter.\<close>

lemma spanOK_number: "spanOK (noKwStart s) True s (lit ''number'')"
proof (rule spanOK_I)
  fix st st' assume m: "st' \<in> set (ms True s (lit ''number'') st)" and l: "fst st \<le> length s"
  define a where "a = fst st"
  from m have e: "fst st' = Suc (Suc (Suc (Suc (Suc (Suc a)))))" and
    c: "cls_match True [Single CHR ''n''] (s ! a)"
       "cls_match True [Single CHR ''u''] (s ! Suc a)"
       "cls_match True [Single CHR ''m''] (s ! Suc (Suc a))"
       "cls_match True [Single CHR ''b''] (s ! Suc (Suc (Suc a)))"
       "cls_match True [Single CHR ''e''] (s ! Suc (Suc (Suc (Suc a))))"
       "cls_match True [Single CHR ''r''] (s ! Suc (Suc (Suc (Suc (Suc a)))))"
    by (auto simp: a_def split: if_splits)
  have w: "isWordChar (s ! a)" "isWordChar (s ! Suc (Suc (Suc a)))"
    using c(1,4) number_word_eval by (auto intro: cls_match_single_word[rotated])
  have nk: "\<not> isKwStart (s ! a)" "\<not> isKwStart (s ! Suc (Suc a))"
    "\<not> isKwStart (s ! Suc (Suc (Suc a)))" "\<not> isKwStart (s ! Suc (Suc (Suc (Suc (Suc a)))))"
    using c(1) kwStart_facts(4)[of "s ! a" "CHR ''n''"]
      c(3) kwStart_facts(4)[of "s ! Suc (Suc a)" "CHR ''m''"]
      c(4) kwStart_facts(4)[of "s ! Suc (Suc (Suc a))" "CHR ''b''"]
      c(6) kwStart_facts(4)[of "s ! Suc (Suc (Suc (Suc (Suc a))))" "CHR ''r''"]
    by auto
  show "noKwStart s (fst st) (fst st')"
    unfolding noKwStart_def e a_def[symmetric]
  proof (intro allI impI)
    fix p assume "a \<le> p \<and> p < Suc (Suc (Suc (Suc (Suc (Suc a)))))"
    then consider "p = a" | "p = Suc a" | "p = Suc (Suc a)" | "p = Suc (Suc (Suc a))"
      | "p = Suc (Suc (Suc (Suc a)))" | "p = Suc (Suc (Suc (Suc (Suc a))))"
      by linarith
    then show "\<not> isKwStart (s ! p) \<or> a < p \<and> isWordChar (s ! (p - 1))"
      using w nk by cases auto
  qed
qed


lemma spanOK_kwTail: "spanOK (noKwStart s) True s kwTail"
proof -
  note Q = spanPred_noKwStart[of s]
  have sp: "spanOK (noKwStart s) True s sp"
    unfolding sp_def by (rule noKwStart_atom) (rule kwStart_facts(1))
  have sep: "spanOK (noKwStart s) True s (Chars [Single CHR '':'', Single CHR ''#'', Single CHR ''-''])"
    by (rule noKwStart_atom) (rule kwStart_facts(3))
  have dig: "spanOK (noKwStart s) True s digits35"
    unfolding digits35_def by (rule spanOK_Rep[OF Q]) (rule noKwStart_atom, rule kwStart_facts(2))
  have no: "spanOK (noKwStart s) True s (lit ''no'')"
    by (rule spanOK_lit[OF Q]) (auto intro: noKwStart_single)
  have dot: "spanOK (noKwStart s) True s (lit ''.'')"
    by (rule spanOK_lit[OF Q]) (auto intro: noKwStart_single)
  have nodot: "spanOK (noKwStart s) True s (seqs [lit ''no'', opt (lit ''.'')])"
    by (rule spanOK_seqs[OF Q]) (use no spanOK_opt[OF Q dot] in simp)
  have alt: "spanOK (noKwStart s) True s (alts [seqs [lit ''no'', opt (lit ''.'')], lit ''number''])"
    by (rule spanOK_alts[OF Q]) (use nodot spanOK_number in simp)
  have x: "spanOK (noKwStart s) True s
             (seqs [star sp, opt (alts [seqs [lit ''no'', opt (lit ''.'')], lit ''number''])])"
    by (rule spanOK_seqs[OF Q]) (use spanOK_star[OF Q sp] spanOK_opt[OF Q alt] in simp)
  show ?thesis
    unfolding kwTail_def
    by (rule spanOK_seqs[OF Q])
       (use x spanOK_star[OF Q sp] spanOK_opt[OF Q sep] spanOK_Grp[OF dig] spanOK_zero(2)[OF Q] in simp)
qed

lemma kw_letters_eval: "list_all isWordChar ''locomotiveunitengines''"
  by code_simp

lemma spanOK_kwWords: "spanOK (allWord s) True s kwWords"
proof -
  note Q = spanPred_allWord[of s]
  have atom: "allWord s a (Suc a)" if "c \<in> set ''locomotiveunitengines''" "cls_match True [Single c] (s ! a)" for c a
  proof -
    have "isWordChar c" using that(1) kw_letters_eval unfolding list_all_iff by blast
    from cls_match_single_word[OF this that(2)] show ?thesis by (auto simp: allWord_def less_Suc_eq)
  qed
  have l: "spanOK (allWord s) True s (lit w)" if "set w \<subseteq> set ''locomotiveunitengines''" for w
    by (rule spanOK_lit[OF Q]) (use that atom in blast)
  have 1: "spanOK (allWord s) True s (lit ''loco'')" by (rule l) simp
  have 2: "spanOK (allWord s) True s (lit ''locomotive'')" by (rule l) simp
  have 3: "spanOK (allWord s) True s (lit ''unit'')" by (rule l) simp
  have 4: "spanOK (allWord s) True s (lit ''engine'')" by (rule l) simp
  have 5: "spanOK (allWord s) True s (lit ''locos'')" by (rule l) simp
  have 6: "spanOK (allWord s) True s (lit ''units'')" by (rule l) simp
  have 7: "spanOK (allWord s) True s (lit ''engines'')" by (rule l) simp
  have "\<forall>r \<in> set [lit ''loco'', lit ''locomotive'', lit ''unit'', lit ''engine'',
                   lit ''locos'', lit ''units'', lit ''engines'']. spanOK (allWord s) True s r"
    using 1 2 3 4 5 6 7 by (simp only: list.set ball_simps simp_thms)
  then show ?thesis
    unfolding kwWords_def by (rule spanOK_alts[OF Q])
qed

lemma kwWords_minLen: "minLen kwWords = 4"
  by (simp add: kwWords_def)

text \<open>Inside a match of the keyword pattern no position can start another match.\<close>

lemma KW_match_blocked:
  assumes m: "st' \<in> set (ms True s (pattern LOCO_KEYWORD_NUMBER_GLOBAL) (i, []))" and i: "i \<le> length s"
    and p: "i < p" "p < fst st'"
  shows "isKwStart (s ! p) \<longrightarrow> isWordChar (s ! (p - 1))"
proof -
  from m obtain mid where mid: "mid \<in> set (ms True s (Grp 1 kwWords) (i, []))"
    "st' \<in> set (ms True s kwTail mid)"
    unfolding KW_pattern by (auto split: if_splits)
  from ms_bounds[OF mid(1)] i have b: "fst mid \<le> length s" by simp
  have w: "allWord s i (fst mid)" using spanOK_D[OF spanOK_Grp[OF spanOK_kwWords] mid(1)] i by simp
  have len: "i + 4 \<le> fst mid" using ms_minLen[OF mid(1)] by (simp add: kwWords_minLen)
  have t: "noKwStart s (fst mid) (fst st')" using spanOK_D[OF spanOK_kwTail mid(2) b] .
  show ?thesis
  proof (cases "p \<le> fst mid")
    case True
    then have "i \<le> p - 1 \<and> p - 1 < fst mid" using p(1) by auto
    then show ?thesis using w unfolding allWord_def by blast
  next
    case False
    then have "fst mid \<le> p \<and> p < fst st'" using p(2) by simp
    then show ?thesis using t unfolding noKwStart_def by blast
  qed
qed

lemma cls_match_kwStart:
  assumes "c \<in> set ''lue''" "cls_match True [Single c] ch"
  shows "isKwStart ch"
proof -
  from assms(2) have "ch = c \<or> upperChar ch = c \<or> lowerChar ch = c" by (auto simp: cls_match_def)
  then have "(of_char ch :: nat) = of_char c \<or> (of_char (upperChar ch) :: nat) = of_char c
       \<or> (of_char (lowerChar ch) :: nat) = of_char c" by auto
  moreover have "(of_char c :: nat) \<in> {108, 117, 101}" using assms(1) by auto
  ultimately have "(of_char ch :: nat) \<in> {108, 117, 101, 76, 85, 69}"
    unfolding of_char_upperChar of_char_lowerChar Let_def by (auto split: if_splits)
  then show ?thesis unfolding isKwStart_def by (auto simp: char_eq_nat[of ch])
qed

lemma lit_first:
  "e \<in> set (ms ic s (lit (c # w)) st) \<Longrightarrow> fst st < length s \<and> cls_match ic [Single c] (s ! fst st)"
  by (cases w) (auto split: if_splits)

lemma KW_match_start:
  assumes "ms True s (pattern LOCO_KEYWORD_NUMBER_GLOBAL) (p, []) \<noteq> []"
  shows "wordBoundary s p" "p < length s" "isKwStart (s ! p)"
proof -
  define st' where "st' = hd (ms True s (pattern LOCO_KEYWORD_NUMBER_GLOBAL) (p, []))"
  have "st' \<in> set (ms True s (pattern LOCO_KEYWORD_NUMBER_GLOBAL) (p, []))"
    unfolding st'_def using assms by (rule hd_in_set)
  then have "st' \<in> set (ms True s (Seq WordB (Seq (Grp 1 kwWords) kwTail)) (p, []))"
    by (simp only: KW_pattern)
  then have wb: "wordBoundary s p" and "\<exists>e. e \<in> set (ms True s kwWords (p, []))"
    by (auto split: if_splits)
  then obtain e where e: "e \<in> set (ms True s kwWords (p, []))" by blast
  show "wordBoundary s p" by (rule wb)
  have k: "p < length s \<and> isKwStart (s ! p)"
    if k1: "e \<in> set (ms True s (lit w) (p, []))" and k2: "w \<noteq> []" and k3: "hd w \<in> set ''lue''" for w
  proof -
    obtain c w' where w: "w = c # w'" using k2 by (cases w) auto
    from lit_first[of e True s c w' "(p, [])"] k1 w
    have "p < length s" "cls_match True [Single c] (s ! p)" by auto
    moreover have "c \<in> set ''lue''" using k3 w by simp
    ultimately show ?thesis using cls_match_kwStart by blast
  qed
  from e have "e \<in> set (ms True s (lit ''loco'') (p, [])) \<or> e \<in> set (ms True s (lit ''locomotive'') (p, []))
     \<or> e \<in> set (ms True s (lit ''unit'') (p, [])) \<or> e \<in> set (ms True s (lit ''engine'') (p, []))
     \<or> e \<in> set (ms True s (lit ''locos'') (p, [])) \<or> e \<in> set (ms True s (lit ''units'') (p, []))
     \<or> e \<in> set (ms True s (lit ''engines'') (p, []))"
    unfolding kwWords_def by (simp only: alts.simps ms.simps set_append Un_iff)
  then have "p < length s \<and> isKwStart (s ! p)"
    by (elim disjE) (erule k, simp, simp)+
  then show "p < length s" "isKwStart (s ! p)" by simp_all
qed

lemma KW_ic: "ignoreCase LOCO_KEYWORD_NUMBER_GLOBAL = True"
  by (simp add: LOCO_KEYWORD_NUMBER_GLOBAL_def)

lemma KW_nonoverlap:
  assumes m: "matchAt LOCO_KEYWORD_NUMBER_GLOBAL s i = Some m" and i: "i \<le> length s"
    and p: "i < p" "p < i + length (m0 m)"
  shows "matchAt LOCO_KEYWORD_NUMBER_GLOBAL s p = None"
proof (rule ccontr)
  assume "matchAt LOCO_KEYWORD_NUMBER_GLOBAL s p \<noteq> None"
  then have ne: "ms True s (pattern LOCO_KEYWORD_NUMBER_GLOBAL) (p, []) \<noteq> []"
    by (simp only: matchAt_eq_None_iff KW_ic not_False_eq_True)
  note st = KW_match_start[OF ne]
  from matchAt_SomeD(3)[OF m i] obtain st' where
    st': "st' \<in> set (ms True s (pattern LOCO_KEYWORD_NUMBER_GLOBAL) (i, []))" "i \<le> fst st'"
         "length (m0 m) = fst st' - i"
    unfolding KW_ic by blast
  have "p < fst st'" using p(2) st'(2,3) by simp
  from KW_match_blocked[OF st'(1) i p(1) this] st(3) have "isWordChar (s ! (p - 1))" by simp
  moreover have "isWordChar (s ! p)" using kwStart_facts(5)[OF st(3)] .
  ultimately have "\<not> wordBoundary s p" using p(1) st(2) by (auto simp: wordBoundary_def)
  with st(1) show False by simp
qed


lemma cls_match_digit: "cls_match ic [Digit] ch \<Longrightarrow> isDigitChar ch"
  by (auto simp: cls_match_def)

lemma ms_seqs_group_end_body:
  "st' \<in> set (ms ic s (seqs (rs @ [Grp k g, WordB])) st) \<Longrightarrow> fst st \<le> length s \<Longrightarrow>
     \<exists>a c0 e. e \<in> set (ms ic s g (a, c0)) \<and> fst e = fst st' \<and> snd st' = (k, a, fst st') # snd e
        \<and> fst st \<le> a \<and> a \<le> length s"
proof (induction rs arbitrary: st)
  case Nil
  from Nil.prems(1) obtain e where e: "e \<in> set (ms ic s g st)" "st' = (fst e, (k, fst st, fst e) # snd e)"
    by (auto split: if_splits)
  have "e \<in> set (ms ic s g (fst st, snd st))" using e(1) by simp
  then show ?case using e(2) Nil.prems(2) by (intro exI[of _ "fst st"] exI[of _ "snd st"] exI[of _ e]) simp
next
  case (Cons r rs)
  from Cons.prems(1) obtain mid where mid: "mid \<in> set (ms ic s r st)"
    "st' \<in> set (ms ic s (seqs (rs @ [Grp k g, WordB])) mid)" by auto
  from ms_bounds[OF mid(1) Cons.prems(2)] have b: "fst st \<le> fst mid" "fst mid \<le> length s" by auto
  from Cons.IH[OF mid(2) b(2)] obtain a c0 e where
    "e \<in> set (ms ic s g (a, c0))" "fst e = fst st'" "snd st' = (k, a, fst st') # snd e"
    "fst mid \<le> a" "a \<le> length s" by blast
  then show ?case using b(1) by (intro exI[of _ a] exI[of _ c0] exI[of _ e]) simp
qed

text \<open>Group 2 of a keyword match is a run of 3 to 5 digits, so no inherited property name.\<close>

lemma keyword_group2:
  assumes m: "matchAt re s i = Some m" and i: "i \<le> length s"
    and pat: "pattern re = seqs (rs @ [Grp 2 digits35, WordB])"
  shows "3 \<le> length (grp m 2)" "isDigitChar (hd (grp m 2))" "grp m 2 \<notin> set objectPrototypeKeys"
proof -
  from matchAt_SomeD(3)[OF m i] obtain st' where
    st': "st' \<in> set (ms (ignoreCase re) s (pattern re) (i, []))" "fst st' \<le> length s"
         "groups m = map (\<lambda>(k, a, b). (k, slice s a b)) (snd st')"
    by blast
  from ms_seqs_group_end_body[OF st'(1)[unfolded pat]] i obtain a c0 e where
    e: "e \<in> set (ms (ignoreCase re) s digits35 (a, c0))" "fst e = fst st'"
       "snd st' = (2, a, fst st') # snd e" "a \<le> length s" by auto
  from e(1) have d: "a + 3 \<le> fst e" "\<forall>p. a \<le> p \<and> p < fst e \<longrightarrow> cls_match (ignoreCase re) [Digit] (s ! p)"
    unfolding digits35_def using e(4) by (auto simp: rep_Chars_set)
  have g: "grp m 2 = slice s a (fst st')" using st'(3) e(3) by (simp add: grp_def)
  have len: "length (grp m 2) = fst st' - a" using g st'(2) by (simp add: slice_def)
  show 3: "3 \<le> length (grp m 2)" using len d(1) e(2) by simp
  have ne: "grp m 2 \<noteq> []" using 3 by auto
  have "take (fst st' - a) (drop a s) ! 0 = s ! a"
    using d(1) e(2) st'(2) by (subst nth_take) (auto simp: nth_drop)
  then have "grp m 2 ! 0 = s ! a" using g by (simp add: slice_def)
  then have "hd (grp m 2) = s ! a" using ne by (simp add: hd_conv_nth)
  moreover have "cls_match (ignoreCase re) [Digit] (s ! a)" using d e(2) by auto
  ultimately show dg: "isDigitChar (hd (grp m 2))" using cls_match_digit by simp
  show "grp m 2 \<notin> set objectPrototypeKeys" using ne dg by (rule digits_not_inherited)
qed

lemma KW_pattern_seqs:
  "pattern LOCO_KEYWORD_NUMBER_GLOBAL = seqs ([WordB,
         Grp 1 (alts [lit ''loco'', lit ''locomotive'', lit ''unit'', lit ''engine'',
                      lit ''locos'', lit ''units'', lit ''engines'']),
         WordB,
         seqs [star sp, opt (alts [seqs [lit ''no'', opt (lit ''.'')], lit ''number''])],
         star sp,
         opt (Chars [Single CHR '':'', Single CHR ''#'', Single CHR ''-'']),
         star sp] @ [Grp 2 digits35, WordB])"
  by (simp add: LOCO_KEYWORD_NUMBER_GLOBAL_def)

lemma CONCAT_pattern_seqs:
  "pattern LOCO_KEYWORD_NUMBER_CONCAT_GLOBAL = seqs ([WordB,
         Grp 1 (alts [lit ''loco'', lit ''locomotive'', lit ''unit'', lit ''engine''])] @ [Grp 2 digits35, WordB])"
  by (simp add: LOCO_KEYWORD_NUMBER_CONCAT_GLOBAL_def)

lemma keywordNumberCb_fst:
  "fst (keywordNumberCb m st) = (if grp m 2 \<in> set (fst st) then fst st else fst st @ [grp m 2])"
  using arrayIndexOf_mem[of "fst st" "grp m 2"] by (auto simp: keywordNumberCb_def Let_def)

lemma extractLocoNos_keyword_complete:
  assumes l: "extractLocoNos inp = Some l"
    and p: "p \<le> length inp" and m: "matchAt LOCO_KEYWORD_NUMBER_GLOBAL inp p = Some m"
  shows "grp m 2 \<in> set (fst l)"
proof -
  from l obtain st1 st2 cands where
    1: "forEachMatch inp LOCO_KEYWORD_NUMBER_GLOBAL keywordNumberCb ([], []) = Some st1" and
    2: "forEachMatch inp LOCO_KEYWORD_NUMBER_CONCAT_GLOBAL keywordNumberCb st1 = Some st2" and
    ld: "l = (uniq (fst (acceptCandidates cands st2)), snd (acceptCandidates cands st2))"
    by (auto simp: extractLocoNos_def Let_def split: Option.bind_splits)
  have "\<exists>st'. forEachMatch inp LOCO_KEYWORD_NUMBER_GLOBAL keywordNumberCb ([], []) = Some st'
          \<and> (\<forall>p m. p \<le> length inp \<and> matchAt LOCO_KEYWORD_NUMBER_GLOBAL inp p = Some m
                \<longrightarrow> grp m 2 \<in> set (fst st'))"
  proof (rule forEachMatch_visits[where R = "\<lambda>m st. grp m 2 \<in> set (fst st)"])
    fix i m p
    assume "matchAt LOCO_KEYWORD_NUMBER_GLOBAL inp i = Some m" "i \<le> length inp" "i < p" "p < i + length (m0 m)"
    then show "matchAt LOCO_KEYWORD_NUMBER_GLOBAL inp p = None" by (rule KW_nonoverlap)
  next
    fix L m and st :: "string list \<times> RawMatch list"
    show "grp m 2 \<in> set (fst (keywordNumberCb m st))" by (simp add: keywordNumberCb_fst)
  next
    fix m m' :: rmatch and st :: "string list \<times> RawMatch list"
    assume "grp m 2 \<in> set (fst st)"
    then show "grp m 2 \<in> set (fst (keywordNumberCb m' st))" by (simp add: keywordNumberCb_fst)
  qed
  with 1 have in1: "grp m 2 \<in> set (fst st1)" using p m by auto
  have "\<exists>st'. forEachMatch inp LOCO_KEYWORD_NUMBER_CONCAT_GLOBAL keywordNumberCb st1 = Some st'
          \<and> set (fst st1) \<subseteq> set (fst st')"
  proof (rule forEachMatch_inv)
    show "set (fst st1) \<subseteq> set (fst st1)" by simp
  next
    fix L m and st :: "string list \<times> RawMatch list"
    assume "set (fst st1) \<subseteq> set (fst st)"
    then show "set (fst st1) \<subseteq> set (fst (keywordNumberCb m st))" by (auto simp: keywordNumberCb_fst)
  qed
  with 2 in1 have "grp m 2 \<in> set (fst st2)" by auto
  then have "grp m 2 \<in> set (fst (acceptCandidates cands st2))" by (simp add: acceptCandidates_eq)
  moreover have "grp m 2 \<notin> set objectPrototypeKeys"
    by (rule keyword_group2(3)[OF m p KW_pattern_seqs])
  ultimately show ?thesis by (simp add: ld set_uniq)
qed

lemma extract_locomotives_4430:
  "extractLocoQuery ''locomotives 4430'' = Some
     \<lparr>input = ''locomotives 4430'', assetIds = [], locoNos = [], names = [],
      assetId = None, locoNo = None, name = None, rawMatches = [], confidence = low\<rparr>"
  by code_simp

lemma extract_locos_4430:
  "extractLocoQuery ''locos 4430'' = Some
     \<lparr>input = ''locos 4430'', assetIds = [], locoNos = [''4430''], names = [],
      assetId = None, locoNo = Some ''4430'', name = None,
      rawMatches = [\<lparr>kind = locoNoKind, mtext = ''4430'', start = 6, end' = 10\<rparr>],
      confidence = medium\<rparr>"
  by code_simp

lemma exec_keyword_locomotives_4430:
  "exec LOCO_KEYWORD_NUMBER_GLOBAL ''locomotives 4430'' 0 = None
   \<and> exec LOCO_KEYWORD_NUMBER_CONCAT_GLOBAL ''locomotives 4430'' 0 = None
   \<and> exec LOCO_NUMBER_GLOBAL ''locomotives 4430'' 0 = Some \<lparr>index = 12, m0 = ''4430'', groups = []\<rparr>
   \<and> candidateScore ''locomotives 4430'' (hasDomainContext ''locomotives 4430'') 12 16 = 0"
  by code_simp

lemma forEachMatch_loop_fold:
  "Suc (length inp) - L < n \<Longrightarrow>
     forEachMatch_loop inp re cb L st = Some (fold cb (scanMatches_from re inp L n) st)"
proof (induction n arbitrary: L st)
  case 0
  then show ?case by simp
next
  case (Suc n)
  show ?case
  proof (cases "exec re inp L")
    case None
    then show ?thesis by (subst forEachMatch_loop.simps) simp
  next
    case (Some m)
    let ?L' = "if m0 m = [] then index m + length (m0 m) + 1 else index m + length (m0 m)"
    from exec_SomeD(1,2)[OF Some] have "L < ?L'" "L \<le> length inp"
      by (cases "m0 m"; auto)+
    then have "Suc (length inp) - ?L' < n" using Suc.prems by linarith
    from Suc.IH[OF this, of "cb m st"] Some show ?thesis
      by (subst forEachMatch_loop.simps) simp
  qed
qed

lemma forEachMatch_fold: "forEachMatch inp re cb st = Some (fold cb (scanMatches re inp) st)"
  unfolding forEachMatch_def scanMatches_def by (rule forEachMatch_loop_fold) simp

lemma scanMatches_from_facts:
  "m \<in> set (scanMatches_from re s L n) \<Longrightarrow>
     L \<le> index m \<and> index m \<le> length s \<and> matchAt re s (index m) = Some m"
proof (induction n arbitrary: L)
  case 0
  then show ?case by simp
next
  case (Suc n)
  show ?case
  proof (cases "exec re s L")
    case None
    with Suc.prems show ?thesis by simp
  next
    case (Some m')
    let ?L' = "if m0 m' = [] then index m' + length (m0 m') + 1 else index m' + length (m0 m')"
    note x = exec_SomeD[OF Some]
    from Suc.prems Some consider "m = m'" | "m \<in> set (scanMatches_from re s ?L' n)" by auto
    then show ?thesis
    proof cases
      case 1
      then show ?thesis using x(1,2,3) by simp
    next
      case 2
      have "L \<le> ?L'" using x(1) by simp
      with Suc.IH[OF 2] show ?thesis by simp
    qed
  qed
qed

lemma scanMatches_from_sorted:
  "sorted_wrt (\<lambda>a b. index a < index b) (scanMatches_from re s L n)"
proof (induction n arbitrary: L)
  case 0
  then show ?case by simp
next
  case (Suc n)
  show ?case
  proof (cases "exec re s L")
    case None
    then show ?thesis by simp
  next
    case (Some m')
    let ?L' = "if m0 m' = [] then index m' + length (m0 m') + 1 else index m' + length (m0 m')"
    have "index m' < index m" if "m \<in> set (scanMatches_from re s ?L' n)" for m
    proof -
      have "?L' \<le> index m" using scanMatches_from_facts[OF that] by simp
      moreover have "index m' < ?L'" by (cases "m0 m'") auto
      ultimately show ?thesis by linarith
    qed
    then show ?thesis using Some Suc.IH[of ?L'] by simp
  qed
qed

lemma scanMatches_sorted: "sorted_wrt (\<lambda>a b. index a < index b) (scanMatches re s)"
  unfolding scanMatches_def by (rule scanMatches_from_sorted)

lemma scanMatches_facts:
  "m \<in> set (scanMatches re s) \<Longrightarrow> index m \<le> length s \<and> matchAt re s (index m) = Some m"
  unfolding scanMatches_def using scanMatches_from_facts by blast

lemma firstOccurrences_Nil [simp]: "firstOccurrences [] = []"
  by (simp add: firstOccurrences_def)

lemma firstOccurrences_snoc:
  "firstOccurrences (xs @ [v]) = (if v \<in> set xs then firstOccurrences xs else firstOccurrences xs @ [v])"
  by (simp add: firstOccurrences_def)

lemma set_firstOccurrences [simp]: "set (firstOccurrences xs) = set xs"
  by (simp add: firstOccurrences_def)

lemma distinct_firstOccurrences [simp]: "distinct (firstOccurrences xs)"
  by (simp add: firstOccurrences_def)

lemma firstOccurrences_distinct: "distinct xs \<Longrightarrow> firstOccurrences xs = xs"
  by (simp add: firstOccurrences_def distinct_remdups_id)

lemma uniq_firstOccurrences:
  "set arr \<inter> set objectPrototypeKeys = {} \<Longrightarrow> uniq arr = firstOccurrences arr"
  unfolding firstOccurrences_def by (rule uniq_first_occurrence)

lemma fold_fst:
  assumes "\<And>m st. fst (cb m st) = f m (fst st)"
  shows "fst (fold cb mts st) = fold f mts (fst st)"
  by (induction mts arbitrary: st) (simp_all add: assms)

text \<open>Pushing each value unless it is already there keeps the first occurrences.\<close>

lemma fold_push_new:
  "fold (\<lambda>m acc. if P m then (if g m \<in> set acc then acc else acc @ [g m]) else acc) mts (firstOccurrences xs)
     = firstOccurrences (xs @ map g (filter P mts))"
proof (induction mts rule: rev_induct)
  case Nil
  then show ?case by simp
next
  case (snoc m mts)
  show ?case
  proof (cases "P m")
    case True
    have "firstOccurrences (xs @ map g (filter P (mts @ [m]))) =
          firstOccurrences ((xs @ map g (filter P mts)) @ [g m])" using True by simp
    also have "\<dots> = (if g m \<in> set (xs @ map g (filter P mts))
                      then firstOccurrences (xs @ map g (filter P mts))
                      else firstOccurrences (xs @ map g (filter P mts)) @ [g m])"
      by (rule firstOccurrences_snoc)
    finally show ?thesis using True snoc.IH by (simp del: set_append map_append filter_append)
  next
    case False
    then show ?thesis using snoc.IH by simp
  qed
qed

lemma fold_push_all: "fold (\<lambda>m acc. acc @ [g m]) mts acc = acc @ map g mts"
  by (induction mts arbitrary: acc) simp_all

lemma firstOccurrences_idem [simp]: "firstOccurrences (firstOccurrences xs) = firstOccurrences xs"
  by (simp add: firstOccurrences_distinct)

lemma firstOccurrences_absorb:
  "firstOccurrences (firstOccurrences K @ map g (filter (\<lambda>m. g m \<notin> set K \<and> P m) mts))
     = firstOccurrences (K @ map g (filter P mts))"
proof (induction mts rule: rev_induct)
  case Nil
  then show ?case by simp
next
  case (snoc m mts)
  let ?L = "firstOccurrences K @ map g (filter (\<lambda>m. g m \<notin> set K \<and> P m) mts)"
  let ?R = "K @ map g (filter P mts)"
  have sets: "set ?L = set ?R"
    using arg_cong[OF snoc.IH, of set] by (simp only: set_firstOccurrences)
  consider (push) "P m" "g m \<notin> set K" | (known) "P m" "g m \<in> set K" | (drop) "\<not> P m" by blast
  then show ?case
  proof cases
    case push
    have "firstOccurrences (firstOccurrences K @ map g (filter (\<lambda>m. g m \<notin> set K \<and> P m) (mts @ [m])))
          = firstOccurrences (?L @ [g m])" using push by simp
    also have "\<dots> = (if g m \<in> set ?L then firstOccurrences ?L else firstOccurrences ?L @ [g m])"
      by (rule firstOccurrences_snoc)
    also have "\<dots> = (if g m \<in> set ?R then firstOccurrences ?R else firstOccurrences ?R @ [g m])"
      by (simp only: sets snoc.IH)
    also have "\<dots> = firstOccurrences (?R @ [g m])" by (rule firstOccurrences_snoc[symmetric])
    also have "\<dots> = firstOccurrences (K @ map g (filter P (mts @ [m])))" using push by simp
    finally show ?thesis .
  next
    case known
    have "firstOccurrences (firstOccurrences K @ map g (filter (\<lambda>m. g m \<notin> set K \<and> P m) (mts @ [m])))
          = firstOccurrences ?L" using known by simp
    also have "\<dots> = firstOccurrences ?R" by (rule snoc.IH)
    also have "\<dots> = firstOccurrences (?R @ [g m])"
      using known by (subst firstOccurrences_snoc) simp
    also have "\<dots> = firstOccurrences (K @ map g (filter P (mts @ [m])))" using known by simp
    finally show ?thesis .
  next
    case drop
    then show ?thesis using snoc.IH by simp
  qed
qed

lemma inherited_eval:
  "list_all (\<lambda>k. length k \<noteq> 24 \<and> CHR '' '' \<notin> set k \<and> k \<noteq> []
              \<and> \<not> (CHR ''A'' \<le> hd k \<and> hd k \<le> CHR ''Z'')) objectPrototypeKeys"
  by code_simp

lemma inherited_facts:
  assumes "k \<in> set objectPrototypeKeys"
  shows "length k \<noteq> 24" "CHR '' '' \<notin> set k" "k \<noteq> []" "\<not> (CHR ''A'' \<le> hd k \<and> hd k \<le> CHR ''Z'')"
  using assms inherited_eval unfolding list_all_iff by blast+

subsection \<open>Asset ids\<close>

lemma ASSET_pattern:
  "pattern ASSET_ID_REGEX_GLOBAL =
     Seq WordB (Seq (Rep 24 (Some 24) (Chars [Range CHR ''a'' CHR ''f'', Range CHR ''0'' CHR ''9''])) WordB)"
  "ignoreCase ASSET_ID_REGEX_GLOBAL = True"
  by (simp_all add: ASSET_ID_REGEX_GLOBAL_def)

lemma asset_match_length:
  assumes m: "matchAt ASSET_ID_REGEX_GLOBAL s i = Some m" and i: "i \<le> length s"
  shows "length (m0 m) = 24"
proof -
  from matchAt_SomeD(3)[OF m i] obtain st' where
    st': "st' \<in> set (ms True s (pattern ASSET_ID_REGEX_GLOBAL) (i, []))" "i \<le> fst st'"
         "length (m0 m) = fst st' - i"
    unfolding ASSET_pattern(2) by blast
  from st'(1) have "(fst st', snd st') \<in> set (rep (ms True s (Chars [Range CHR ''a'' CHR ''f'', Range CHR ''0'' CHR ''9''])) 24 24 (i, []))"
    unfolding ASSET_pattern(1) by (auto split: if_splits)
  then have "fst st' = i + 24" using i by (auto simp: rep_Chars_set)
  then show ?thesis using st'(3) by simp
qed

lemma assetIdCb_fst: "fst (assetIdCb m st) = fst st @ [toLowerCase (m0 m)]"
  by (simp add: assetIdCb_def Let_def)

lemma extractAssetIds_order:
  assumes "extractAssetIds inp = Some a"
  shows "fst a = firstOccurrences (map (\<lambda>m. toLowerCase (m0 m)) (scanMatches ASSET_ID_REGEX_GLOBAL inp))"
proof -
  let ?ms = "scanMatches ASSET_ID_REGEX_GLOBAL inp"
  have f: "fst (fold assetIdCb ?ms ([], [])) = map (\<lambda>m. toLowerCase (m0 m)) ?ms"
    using fold_fst[of assetIdCb "\<lambda>m acc. acc @ [toLowerCase (m0 m)]" ?ms "([], [])"]
    by (simp add: assetIdCb_fst fold_push_all)
  have "set (map (\<lambda>m. toLowerCase (m0 m)) ?ms) \<inter> set objectPrototypeKeys = {}"
  proof (rule ccontr)
    assume "set (map (\<lambda>m. toLowerCase (m0 m)) ?ms) \<inter> set objectPrototypeKeys \<noteq> {}"
    then obtain m where m: "m \<in> set ?ms" "toLowerCase (m0 m) \<in> set objectPrototypeKeys" by auto
    from scanMatches_facts[OF m(1)] have "length (m0 m) = 24" using asset_match_length by blast
    then have "length (toLowerCase (m0 m)) = 24" by (simp add: toLowerCase_def)
    with inherited_facts(1)[OF m(2)] show False by simp
  qed
  then have "uniq (map (\<lambda>m. toLowerCase (m0 m)) ?ms) = firstOccurrences (map (\<lambda>m. toLowerCase (m0 m)) ?ms)"
    by (rule uniq_firstOccurrences)
  with assms f show ?thesis by (auto simp: extractAssetIds_def forEachMatch_fold)
qed

subsection \<open>Loco numbers\<close>

lemma keyword_fold:
  "fst (fold keywordNumberCb mts st) = 
     fold (\<lambda>m acc. if True then (if grp m 2 \<in> set acc then acc else acc @ [grp m 2]) else acc) mts (fst st)"
  by (rule fold_fst) (simp add: keywordNumberCb_fst)

lemma generic_fold:
  "map numText (filter (\<lambda>c. 1 \<le> score c) (fold (genericNumberCb inp (hasDomainContext inp) A) mts cs))
     = map numText (filter (\<lambda>c. 1 \<le> score c) cs)
       @ map m0 (filter (\<lambda>m. m0 m \<notin> set A \<and> genericKept inp m) mts)"
proof (induction mts arbitrary: cs)
  case Nil
  then show ?case by simp
next
  case (Cons m mts)
  show ?case
    unfolding fold_Cons comp_apply Cons.IH
    using arrayIndexOf_mem[of A "m0 m"]
    by (auto simp: genericNumberCb_def Let_def genericKept_def)
qed

lemma extractLocoNos_order:
  assumes "extractLocoNos inp = Some l"
  shows "fst l = firstOccurrences
           (map (\<lambda>m. grp m 2) (scanMatches LOCO_KEYWORD_NUMBER_GLOBAL inp)
            @ map (\<lambda>m. grp m 2) (scanMatches LOCO_KEYWORD_NUMBER_CONCAT_GLOBAL inp)
            @ map m0 (filter (genericKept inp) (scanMatches LOCO_NUMBER_GLOBAL inp)))"
proof -
  let ?K1 = "map (\<lambda>m. grp m 2) (scanMatches LOCO_KEYWORD_NUMBER_GLOBAL inp)"
  let ?K2 = "map (\<lambda>m. grp m 2) (scanMatches LOCO_KEYWORD_NUMBER_CONCAT_GLOBAL inp)"
  let ?G = "scanMatches LOCO_NUMBER_GLOBAL inp"
  define st1 where "st1 = fold keywordNumberCb (scanMatches LOCO_KEYWORD_NUMBER_GLOBAL inp) ([], [])"
  define st2 where "st2 = fold keywordNumberCb (scanMatches LOCO_KEYWORD_NUMBER_CONCAT_GLOBAL inp) st1"
  define cands where "cands = fold (genericNumberCb inp (hasDomainContext inp) (fst st2)) ?G []"
  have l: "l = (uniq (fst (acceptCandidates cands st2)), snd (acceptCandidates cands st2))"
    using assms by (simp add: extractLocoNos_def forEachMatch_fold Let_def st1_def st2_def cands_def)
  have 1: "fst st1 = firstOccurrences ?K1"
    unfolding st1_def keyword_fold
    using fold_push_new[of "\<lambda>_. True" "\<lambda>m. grp m 2" "scanMatches LOCO_KEYWORD_NUMBER_GLOBAL inp" "[]"]
    by simp
  have 2: "fst st2 = firstOccurrences (?K1 @ ?K2)"
    unfolding st2_def keyword_fold 1
    using fold_push_new[of "\<lambda>_. True" "\<lambda>m. grp m 2" "scanMatches LOCO_KEYWORD_NUMBER_CONCAT_GLOBAL inp" ?K1]
    by simp
  have 3: "fst (acceptCandidates cands st2) =
           firstOccurrences (?K1 @ ?K2) @ map m0 (filter (\<lambda>m. m0 m \<notin> set (?K1 @ ?K2) \<and> genericKept inp m) ?G)"
    unfolding acceptCandidates_eq cands_def
    using generic_fold[of inp "fst st2" ?G "[]"] by (simp add: 2)
  have k1: "x \<notin> set objectPrototypeKeys" if "x \<in> set ?K1" for x
  proof -
    from that obtain m where m: "m \<in> set (scanMatches LOCO_KEYWORD_NUMBER_GLOBAL inp)" "x = grp m 2" by auto
    from scanMatches_facts[OF m(1)] keyword_group2(3)[OF _ _ KW_pattern_seqs] m(2) show ?thesis by blast
  qed
  have k2: "x \<notin> set objectPrototypeKeys" if "x \<in> set ?K2" for x
  proof -
    from that obtain m where m: "m \<in> set (scanMatches LOCO_KEYWORD_NUMBER_CONCAT_GLOBAL inp)" "x = grp m 2" by auto
    from scanMatches_facts[OF m(1)] keyword_group2(3)[OF _ _ CONCAT_pattern_seqs] m(2) show ?thesis by blast
  qed
  have g: "m0 m \<notin> set objectPrototypeKeys" if "m \<in> set ?G" for m
    using scanMatches_facts[OF that] generic_m0_not_inherited by blast
  have "set (fst (acceptCandidates cands st2)) \<inter> set objectPrototypeKeys = {}"
    unfolding 3 using k1 k2 g by auto
  then have "fst l = firstOccurrences (fst (acceptCandidates cands st2))"
    unfolding l by (simp add: uniq_firstOccurrences)
  also have "\<dots> = firstOccurrences ((?K1 @ ?K2) @ map m0 (filter (genericKept inp) ?G))"
    unfolding 3 by (rule firstOccurrences_absorb)
  finally show ?thesis by simp
qed

subsection \<open>Names\<close>

lemma fold_option_push:
  "fold (\<lambda>m acc. case f m of None \<Rightarrow> acc | Some p \<Rightarrow> if p \<in> set acc then acc else acc @ [p])
        mts (firstOccurrences xs)
     = firstOccurrences (xs @ List.map_filter f mts)"
proof -
  have "(\<lambda>m acc. case f m of None \<Rightarrow> acc | Some p \<Rightarrow> if p \<in> set acc then acc else acc @ [p])
        = (\<lambda>m acc. if f m \<noteq> None then (if the (f m) \<in> set acc then acc else acc @ [the (f m)]) else acc)"
    by (auto simp: fun_eq_iff split: option.splits)
  then show ?thesis
    using fold_push_new[of "\<lambda>m. f m \<noteq> None" "\<lambda>m. the (f m)" mts xs]
    by (simp add: map_filter_def comp_def)
qed

lemma fold_filter_map:
  "fold (\<lambda>m acc. if P m then h (g m) acc else acc) mts acc = fold h (map g (filter P mts)) acc"
  by (induction mts arbitrary: acc) simp_all

lemma noSpaceNameCb_fst:
  "fst (noSpaceNameCb m st) =
     (if noSpaceKept m then (if noSpaceName m \<in> set (fst st) then fst st else fst st @ [noSpaceName m])
      else fst st)"
  using arrayIndexOf_mem[of "fst st" "noSpaceName m"]
  by (auto simp: noSpaceNameCb_def Let_def noSpaceKept_def noSpaceName_def modelish_def)

lemma namePhraseCb_fst:
  "fst (namePhraseCb inp m st) =
     (case namePhrase inp m of None \<Rightarrow> fst st
      | Some p \<Rightarrow> if p \<in> set (fst st) then fst st else fst st @ [p])"
proof (cases "matchStr AFTER_NUMBER_REGEX (drop (index m + length (m0 m)) inp)")
  case None
  then show ?thesis by (simp add: namePhraseCb_def namePhrase_def Let_def)
next
  case (Some afterMatch)
  define tokens where "tokens = splitSpaces (trim (m0 m @ grp afterMatch 1))"
  define tokens1 where "tokens1 = (if separatorIndex tokens > 0 then take (nat (separatorIndex tokens)) tokens else tokens)"
  define tokens2 where "tokens2 = popStopwords tokens1"
  define phrase where "phrase = joinSpace tokens2"
  define second where "second = toUpperCase (if length tokens > 1 then tokens ! 1 else [])"
  have eq: "namePhraseCb inp m st =
     (if isStopword second then st
      else if \<not> list_ex modelish (drop 1 tokens1) then st
      else if length tokens2 < 2 then st
      else if arrayIndexOf (fst st) phrase \<ge> 0 then st
      else (fst st @ [phrase],
            snd st @ [\<lparr>kind = nameKind, mtext = phrase, start = index m, end' = index m + length phrase\<rparr>]))"
    unfolding namePhraseCb_def Let_def Some option.case tokens_def tokens1_def tokens2_def phrase_def second_def
    by (rule refl)
  have eq2: "namePhrase inp m =
     (if isStopword second then None
      else if \<not> list_ex modelish (drop 1 tokens1) then None
      else if length tokens2 < 2 then None
      else Some phrase)"
    unfolding namePhrase_def Let_def Some option.case tokens_def tokens1_def tokens2_def phrase_def second_def
    by (rule refl)
  show ?thesis unfolding eq eq2 using arrayIndexOf_mem[of "fst st" phrase] by simp
qed

lemma modelTokenCb_fst:
  "fst (modelTokenCb inp m st) =
     (if modelTokenKept inp m then addModelToken (m0 m) (fst st) else fst st)"
  by (simp add: modelTokenCb_def Let_def modelTokenKept_def addModelToken_def)

lemma indexOf_self: "0 \<le> indexOf t t"
  unfolding indexOf_def by (subst indexOf_from.simps) simp

lemma addModelToken_distinct: "distinct ns \<Longrightarrow> distinct (addModelToken t ns)"
  using indexOf_self[of t] by (auto simp: addModelToken_def list_ex_iff)

lemma fold_addModelToken_distinct: "distinct ns \<Longrightarrow> distinct (fold addModelToken ts ns)"
  by (induction ts arbitrary: ns) (simp_all add: addModelToken_distinct)

lemma fold_addModelToken_set: "set (fold addModelToken ts ns) \<subseteq> set ns \<union> set ts"
proof (induction ts arbitrary: ns)
  case Nil
  then show ?case by simp
next
  case (Cons t ts)
  have "set (addModelToken t ns) \<subseteq> set ns \<union> {t}" by (auto simp: addModelToken_def)
  with Cons[of "addModelToken t ns"] show ?case by auto
qed

lemma joinSpace_space: "2 \<le> length ts \<Longrightarrow> CHR '' '' \<in> set (joinSpace ts)"
  by (cases ts rule: joinSpace.cases) simp_all

lemma namePhrase_space: "namePhrase inp m = Some p \<Longrightarrow> CHR '' '' \<in> set p"
  unfolding namePhrase_def Let_def
  by (auto split: option.splits if_splits intro!: joinSpace_space)

lemma modelish_not_inherited: "list_all (\<lambda>k. \<not> test MODELISH_REGEX k) objectPrototypeKeys"
  by code_simp

lemma extractNames_order:
  assumes "extractNames inp = Some n"
  shows "fst n = fold addModelToken
           (map m0 (filter (modelTokenKept inp) (scanMatches MODEL_TOKEN_GLOBAL inp)))
           (firstOccurrences
              (map noSpaceName (filter noSpaceKept (scanMatches LOCO_NAME_NOSPACE_GLOBAL inp))
               @ List.map_filter (namePhrase inp) (scanMatches LOCO_NUMBER_START_GLOBAL inp)))"
proof -
  let ?N0 = "map noSpaceName (filter noSpaceKept (scanMatches LOCO_NAME_NOSPACE_GLOBAL inp))"
  let ?N1 = "List.map_filter (namePhrase inp) (scanMatches LOCO_NUMBER_START_GLOBAL inp)"
  let ?T = "map m0 (filter (modelTokenKept inp) (scanMatches MODEL_TOKEN_GLOBAL inp))"
  define st0 where "st0 = fold noSpaceNameCb (scanMatches LOCO_NAME_NOSPACE_GLOBAL inp) ([], [])"
  define st1 where "st1 = fold (namePhraseCb inp) (scanMatches LOCO_NUMBER_START_GLOBAL inp) st0"
  define st2 where "st2 = fold (modelTokenCb inp) (scanMatches MODEL_TOKEN_GLOBAL inp) st1"
  have n: "fst n = uniq (fst st2)"
    using assms by (auto simp: extractNames_def forEachMatch_fold st0_def st1_def st2_def)
  have 0: "fst st0 = firstOccurrences ?N0"
    unfolding st0_def
    using fold_fst[of noSpaceNameCb
        "\<lambda>m acc. if noSpaceKept m then (if noSpaceName m \<in> set acc then acc else acc @ [noSpaceName m]) else acc"
        "scanMatches LOCO_NAME_NOSPACE_GLOBAL inp" "([], [])"]
      fold_push_new[of noSpaceKept noSpaceName "scanMatches LOCO_NAME_NOSPACE_GLOBAL inp" "[]"]
    by (simp add: noSpaceNameCb_fst)
  have 1: "fst st1 = firstOccurrences (?N0 @ ?N1)"
    unfolding st1_def
    using fold_fst[of "namePhraseCb inp"
        "\<lambda>m acc. case namePhrase inp m of None \<Rightarrow> acc | Some p \<Rightarrow> if p \<in> set acc then acc else acc @ [p]"
        "scanMatches LOCO_NUMBER_START_GLOBAL inp" st0]
      fold_option_push[of "namePhrase inp" "scanMatches LOCO_NUMBER_START_GLOBAL inp" ?N0]
    by (simp add: namePhraseCb_fst 0)
  have 2: "fst st2 = fold addModelToken ?T (firstOccurrences (?N0 @ ?N1))"
    unfolding st2_def
    using fold_fst[of "modelTokenCb inp"
        "\<lambda>m acc. if modelTokenKept inp m then addModelToken (m0 m) acc else acc"
        "scanMatches MODEL_TOKEN_GLOBAL inp" st1]
    by (simp add: modelTokenCb_fst 1 fold_filter_map)
  have d: "distinct (fst st2)"
    unfolding 2 by (rule fold_addModelToken_distinct) (rule distinct_firstOccurrences)
  have "x \<notin> set objectPrototypeKeys" if "x \<in> set (fst st2)" for x
  proof -
    from that fold_addModelToken_set[of ?T "firstOccurrences (?N0 @ ?N1)"]
    consider "x \<in> set ?N0" | "x \<in> set ?N1" | "x \<in> set ?T"
      unfolding 2 by (auto simp: set_firstOccurrences)
    then show ?thesis
    proof cases
      case 1
      then have "CHR '' '' \<in> set x" by (auto simp: noSpaceName_def)
      then show ?thesis using inherited_facts(2) by blast
    next
      case 2
      then obtain m where "namePhrase inp m = Some x" by (auto simp: map_filter_def)
      then have "CHR '' '' \<in> set x" by (rule namePhrase_space)
      then show ?thesis using inherited_facts(2) by blast
    next
      case 3
      then have "test MODELISH_REGEX x" by (auto simp: modelTokenKept_def)
      then show ?thesis using modelish_not_inherited unfolding list_all_iff by blast
    qed
  qed
  then have "set (fst st2) \<inter> set objectPrototypeKeys = {}" by blast
  then have "uniq (fst st2) = firstOccurrences (fst st2)" by (rule uniq_firstOccurrences)
  also have "\<dots> = fst st2" using d by (rule firstOccurrences_distinct)
  finally show ?thesis using n 2 by simp
qed

subsection \<open>Evaluation of \<^verbatim>\<open>"status 903 loco 4430"\<close>\<close>

lemma extract_status_903_loco_4430:
  "extractLocoQuery ''status 903 loco 4430'' = Some
     \<lparr>input = ''status 903 loco 4430'', assetIds = [],
        locoNos = [''4430'', ''903''], names = [], assetId = None,
        locoNo = Some ''4430'', name = None,
        rawMatches =
          [\<lparr>kind = locoNoKind, mtext = ''903'', start = 7, end' = 10\<rparr>,
           \<lparr>kind = locoNoKind, mtext = ''4430'', start = 16, end' = 20\<rparr>],
        confidence = medium\<rparr>"
  by code_simp

lemma indexOf_903: "indexOf ''status 903 loco 4430'' ''903'' = 7"
  by code_simp

lemma indexOf_4430: "indexOf ''status 903 loco 4430'' ''4430'' = 16"
  by code_simp

lemma keyword_scan_status_903:
  "map (\<lambda>m. grp m 2) (scanMatches LOCO_KEYWORD_NUMBER_GLOBAL ''status 903 loco 4430'') = [''4430'']"
  by code_simp

lemma concat_scan_status_903:
  "map (\<lambda>m. grp m 2) (scanMatches LOCO_KEYWORD_NUMBER_CONCAT_GLOBAL ''status 903 loco 4430'') = []"
  by code_simp

lemma generic_scan_status_903:
  "map m0 (filter (genericKept ''status 903 loco 4430'')
       (scanMatches LOCO_NUMBER_GLOBAL ''status 903 loco 4430'')) = [''903'', ''4430'']"
  by code_simp

lemma nospace_scan_loco_4430_SD70M:
  "map noSpaceName (filter noSpaceKept (scanMatches LOCO_NAME_NOSPACE_GLOBAL ''loco 4430 SD70M'')) = []"
  by code_simp

lemma phrase_scan_loco_4430_SD70M:
  "List.map_filter (namePhrase ''loco 4430 SD70M'')
     (scanMatches LOCO_NUMBER_START_GLOBAL ''loco 4430 SD70M'') = [''4430 SD70M'']"
  by code_simp

lemma token_scan_loco_4430_SD70M:
  "map m0 (filter (modelTokenKept ''loco 4430 SD70M'')
     (scanMatches MODEL_TOKEN_GLOBAL ''loco 4430 SD70M'')) = [''SD70M'']"
  by code_simp

lemma addModelToken_SD70M: "addModelToken ''SD70M'' [''4430 SD70M''] = [''4430 SD70M'']"
  by code_simp

lemma firstOccurrences_eval:
  "firstOccurrences [''4430'', ''903'', ''4430''] = [''4430'', ''903'']"
  "firstOccurrences [''4430 SD70M''] = [''4430 SD70M'']"
  by (simp_all add: firstOccurrences_def)


section \<open>The claims\<close>

text \<open>
  C9: \<^verbatim>\<open>extractLocoQuery\<close> returns on every input. Every scanning loop returns, for
  any pattern and any callback, because each round moves \<^verbatim>\<open>lastIndex\<close> strictly
  forward: past the match, and one further after an empty match.
\<close>

theorem extractLocoQuery_terminates:
  "(\<exists>q. extractLocoQuery inp = Some q)
   \<and> (\<forall>re cb st. \<exists>st'. forEachMatch inp re cb st = Some st')
   \<and> (\<forall>re lastIndex m. exec re inp lastIndex = Some m \<longrightarrow>
         lastIndex < (if m0 m = [] then index m + length (m0 m) + 1 else index m + length (m0 m)))"
proof (intro conjI allI impI)
  obtain a l n where "extractAssetIds inp = Some a" "extractLocoNos inp = Some l" "extractNames inp = Some n"
    using extractAssetIds_total extractLocoNos_total extractNames_total by blast
  then show "\<exists>q. extractLocoQuery inp = Some q" by (simp add: extractLocoQuery_def Let_def)
next
  fix re :: regexp and cb :: "rmatch \<Rightarrow> 'a \<Rightarrow> 'a" and st :: 'a
  show "\<exists>st'. forEachMatch inp re cb st = Some st'" by (rule forEachMatch_total)
next
  fix re lastIndex m
  assume e: "exec re inp lastIndex = Some m"
  from exec_SomeD(1)[OF e]
  show "lastIndex < (if m0 m = [] then index m + length (m0 m) + 1 else index m + length (m0 m))"
    by (cases "m0 m") auto
qed

theorem extractLocoQuery_terminates_witness:
  "exec LOCO_NUMBER_GLOBAL ''loco 4430 SD70M'' 0 = Some \<lparr>index = 5, m0 = ''4430'', groups = []\<rparr>
   \<and> (0::nat) < 5 + length ''4430''
   \<and> extractLocoQuery ''loco 4430 SD70M'' \<noteq> None"
  using extractLocoQuery_terminates [of "''loco 4430 SD70M''"] exec_loco_4430_SD70M by auto

text \<open>
  C10: the singular fields \<open>assetId\<close>, \<open>locoNo\<close> and \<open>name\<close> of the result are the
  first elements of \<open>assetIds\<close>, \<open>locoNos\<close> and \<open>names\<close>, and are undefined
  exactly when the list is empty.
\<close>

theorem singular_fields_first:
  assumes "extractLocoQuery inp = Some q"
  shows "assetId q = (case assetIds q of [] \<Rightarrow> None | x # _ \<Rightarrow> Some x)
       \<and> locoNo q = (case locoNos q of [] \<Rightarrow> None | x # _ \<Rightarrow> Some x)
       \<and> name q = (case names q of [] \<Rightarrow> None | x # _ \<Rightarrow> Some x)
       \<and> (assetId q = None \<longleftrightarrow> assetIds q = [])
       \<and> (locoNo q = None \<longleftrightarrow> locoNos q = [])
       \<and> (name q = None \<longleftrightarrow> names q = [])"
  using assms by (elim extractLocoQuery_SomeD) (auto simp: first_def split: list.splits)

theorem singular_fields_first_witness:
  "extractLocoQuery ''loco 4430 SD70M'' \<noteq> None
   \<and> assetId (the (extractLocoQuery ''loco 4430 SD70M'')) = None
   \<and> assetIds (the (extractLocoQuery ''loco 4430 SD70M'')) = []
   \<and> locoNo (the (extractLocoQuery ''loco 4430 SD70M'')) = Some ''4430''
   \<and> locoNos (the (extractLocoQuery ''loco 4430 SD70M'')) = [''4430'']
   \<and> name (the (extractLocoQuery ''loco 4430 SD70M'')) = Some ''4430 SD70M''
   \<and> names (the (extractLocoQuery ''loco 4430 SD70M'')) = [''4430 SD70M'']"
  using singular_fields_first [OF extract_loco_4430_SD70M] extract_loco_4430_SD70M by simp

text \<open>
  C1: the confidence of the result is a function of the three candidate lists alone: high
  when \<open>assetIds\<close> is non-empty; else medium when \<open>locoNos\<close> is non-empty; else
  medium when \<open>names\<close> is non-empty and some name begins with a 3-to-5-digit number
  at a word boundary; low in every other case, the empty input included.
\<close>

theorem confidence_from_lists:
  "(\<forall>q. extractLocoQuery inp = Some q \<longrightarrow>
       confidence q = confidenceSpec (assetIds q) (locoNos q) (names q))
   \<and> map_option confidence (extractLocoQuery '''') = Some low"
proof (intro conjI allI impI)
  fix q assume "extractLocoQuery inp = Some q"
  then show "confidence q = confidenceSpec (assetIds q) (locoNos q) (names q)"
    by (elim extractLocoQuery_SomeD) (simp add: computeConfidence_spec)
next
  show "map_option confidence (extractLocoQuery '''') = Some low"
    by (simp add: extract_empty)
qed

theorem confidence_from_lists_witness:
  "extractLocoQuery ''loco 4430 SD70M'' \<noteq> None
   \<and> confidence (the (extractLocoQuery ''loco 4430 SD70M'')) = medium
   \<and> confidenceSpec [] [''4430''] [''4430 SD70M''] = medium"
  using confidence_from_lists [of "''loco 4430 SD70M''"] extract_loco_4430_SD70M
  by (simp add: confidenceSpec_def)

text \<open>
  C6: for the input \<^verbatim>\<open>"Status for 4430SD70M"\<close> the names are \<^verbatim>\<open>["4430 SD70M"]\<close>, with
  the space re-inserted, the raw match keeps the unspaced text \<^verbatim>\<open>"4430SD70M"\<close> and its
  span 11 to 20, and \<open>locoNos\<close> is empty: the generic pattern finds no standalone
  3-to-5-digit token in the input.
\<close>

theorem no_space_split:
  "map_option names (extractLocoQuery ''Status for 4430SD70M'') = Some [''4430 SD70M'']
   \<and> map_option locoNos (extractLocoQuery ''Status for 4430SD70M'') = Some []
   \<and> map_option rawMatches (extractLocoQuery ''Status for 4430SD70M'')
        = Some [\<lparr>kind = nameKind, mtext = ''4430SD70M'', start = 11, end' = 20\<rparr>]
   \<and> slice ''Status for 4430SD70M'' 11 20 = ''4430SD70M''
   \<and> exec LOCO_NUMBER_GLOBAL ''Status for 4430SD70M'' 0 = None"
  by (simp add: extract_status_4430SD70M exec_generic_status_4430SD70M slice_def)

text \<open>
  C3: in the generic pass a token whose value lies in 1900 to 2099 is rejected, whatever
  the domain context: the callback leaves the candidates as they are. So a number of
  that range is among \<open>locoNos\<close> only when a keyword pattern captured it. For
  \<^verbatim>\<open>"Show inspections in 2024"\<close>, an input with domain context, \<open>locoNos\<close> is empty.
\<close>

theorem year_rejected:
  "(\<forall>hasDomain nos m candidates.
       looksLikeYear (Number (m0 m)) \<longrightarrow> genericNumberCb inp hasDomain nos m candidates = candidates)
   \<and> (\<forall>q n. extractLocoQuery inp = Some q \<and> n \<in> set (locoNos q) \<and> looksLikeYear (Number n)
         \<longrightarrow> keywordAttached inp n)
   \<and> (\<forall>n. looksLikeYear n \<longleftrightarrow> 1900 \<le> n \<and> n \<le> 2099)
   \<and> hasDomainContext ''Show inspections in 2024''
   \<and> map_option locoNos (extractLocoQuery ''Show inspections in 2024'') = Some []"
proof (intro conjI allI impI)
  fix hasDomain nos candidates and m :: rmatch
  assume "looksLikeYear (Number (m0 m))"
  then show "genericNumberCb inp hasDomain nos m candidates = candidates"
    by (simp add: genericNumberCb_def Let_def)
next
  fix q n
  assume a: "extractLocoQuery inp = Some q \<and> n \<in> set (locoNos q) \<and> looksLikeYear (Number n)"
  then have "keywordAttached inp n \<or> genericAccepted inp n" using locoNos_origin[of inp q n] by simp
  moreover have "\<not> genericAccepted inp n" using a by (auto simp: genericAccepted_def split: option.splits)
  ultimately show "keywordAttached inp n" by simp
next
  fix n show "looksLikeYear n \<longleftrightarrow> 1900 \<le> n \<and> n \<le> 2099" by (simp add: looksLikeYear_def)
next
  show "hasDomainContext ''Show inspections in 2024''" by (rule domain_show_2024)
next
  show "map_option locoNos (extractLocoQuery ''Show inspections in 2024'') = Some []"
    by (simp add: extract_show_2024)
qed

theorem year_rejected_witness:
  "looksLikeYear (Number ''2024'')
   \<and> genericNumberCb ''Show inspections in 2024'' True [] \<lparr>index = 20, m0 = ''2024'', groups = []\<rparr> [] = []
   \<and> extractLocoQuery ''loco 2024'' \<noteq> None
   \<and> ''2024'' \<in> set (locoNos (the (extractLocoQuery ''loco 2024'')))
   \<and> keywordAttached ''loco 2024'' ''2024''"
proof -
  have 1: "genericNumberCb ''Show inspections in 2024'' True [] \<lparr>index = 20, m0 = ''2024'', groups = []\<rparr> [] = []"
    using year_rejected [of "''Show inspections in 2024''"] year_2024 by simp
  have 2: "keywordAttached ''loco 2024'' ''2024''"
    using year_rejected [of "''loco 2024''"] extract_loco_2024 year_2024 by simp
  show ?thesis using 1 2 year_2024 extract_loco_2024 by simp
qed

text \<open>
  C7: in the generic pass a token followed by a day suffix is rejected: when
  \<^verbatim>\<open>isFollowedByDayish\<close> holds the callback leaves the candidates as they are, and it
  holds whenever the token is followed by \<^verbatim>\<open>-day\<close>, \<^verbatim>\<open>-days\<close>, \<^verbatim>\<open> day\<close>, \<^verbatim>\<open> days\<close> or
  \<^verbatim>\<open>d\<close>. So a number that no keyword pattern captured is among \<open>locoNos\<close> only with an
  occurrence that no day suffix follows. For
  \<^verbatim>\<open>"locomotive had 368 days out of service"\<close>, \<^verbatim>\<open>"368"\<close> is not among \<open>locoNos\<close>.
\<close>

theorem day_suffix_rejected:
  "(\<forall>hasDomain nos m candidates.
       isFollowedByDayish inp (index m + length (m0 m))
         \<longrightarrow> genericNumberCb inp hasDomain nos m candidates = candidates)
   \<and> (\<forall>e. daySuffixFollows inp e \<longrightarrow> isFollowedByDayish inp e)
   \<and> (\<forall>q n. extractLocoQuery inp = Some q \<and> n \<in> set (locoNos q) \<and> \<not> keywordAttached inp n
         \<longrightarrow> (\<exists>L \<in> set [0..<Suc (length inp)].
                case exec LOCO_NUMBER_GLOBAL inp L of
                  None \<Rightarrow> False
                | Some m \<Rightarrow> m0 m = n \<and> \<not> isFollowedByDayish inp (index m + length n)))
   \<and> map_option (\<lambda>q. ''368'' \<in> set (locoNos q))
        (extractLocoQuery ''locomotive had 368 days out of service'') = Some False"
proof (intro conjI allI impI)
  fix hasDomain nos candidates and m :: rmatch
  assume "isFollowedByDayish inp (index m + length (m0 m))"
  then show "genericNumberCb inp hasDomain nos m candidates = candidates"
    by (simp add: genericNumberCb_def Let_def)
next
  fix e assume "daySuffixFollows inp e"
  then show "isFollowedByDayish inp e" by (rule daySuffix_dayish)
next
  fix q n
  assume a: "extractLocoQuery inp = Some q \<and> n \<in> set (locoNos q) \<and> \<not> keywordAttached inp n"
  then have "genericAccepted inp n" using locoNos_origin[of inp q n] by simp
  then obtain L where L: "L \<in> set [0..<Suc (length inp)]"
    "case exec LOCO_NUMBER_GLOBAL inp L of
       None \<Rightarrow> False
     | Some m \<Rightarrow> m0 m = n
         \<and> \<not> isFollowedByDayish inp (index m + length n)
         \<and> \<not> looksLikeCountNumber inp (index m) (index m + length n)
         \<and> \<not> looksLikeYear (Number n)
         \<and> candidateScore inp (hasDomainContext inp) (index m) (index m + length n) \<ge> 1"
    unfolding genericAccepted_def by blast
  show "\<exists>L \<in> set [0..<Suc (length inp)].
          case exec LOCO_NUMBER_GLOBAL inp L of
            None \<Rightarrow> False
          | Some m \<Rightarrow> m0 m = n \<and> \<not> isFollowedByDayish inp (index m + length n)"
    using L by (intro bexI[of _ L]) (auto split: option.splits)
next
  show "map_option (\<lambda>q. ''368'' \<in> set (locoNos q))
          (extractLocoQuery ''locomotive had 368 days out of service'') = Some False"
    by (simp add: extract_368_days)
qed

theorem day_suffix_rejected_witness:
  "daySuffixFollows ''locomotive had 368 days out of service'' 18
   \<and> isFollowedByDayish ''locomotive had 368 days out of service'' 18
   \<and> exec LOCO_NUMBER_GLOBAL ''locomotive had 368 days out of service'' 0
        = Some \<lparr>index = 15, m0 = ''368'', groups = []\<rparr>
   \<and> genericNumberCb ''locomotive had 368 days out of service'' True []
        \<lparr>index = 15, m0 = ''368'', groups = []\<rparr> [] = []
   \<and> extractLocoQuery ''#4430'' \<noteq> None
   \<and> ''4430'' \<in> set (locoNos (the (extractLocoQuery ''#4430'')))
   \<and> \<not> keywordAttached ''#4430'' ''4430''
   \<and> (\<exists>L \<in> set [0..<Suc (length ''#4430'')].
         case exec LOCO_NUMBER_GLOBAL ''#4430'' L of
           None \<Rightarrow> False
         | Some m \<Rightarrow> m0 m = ''4430'' \<and> \<not> isFollowedByDayish ''#4430'' (index m + length ''4430''))"
proof -
  note t = day_suffix_rejected [of "''locomotive had 368 days out of service''"]
  have 1: "isFollowedByDayish ''locomotive had 368 days out of service'' 18"
    using t suffix_368_days by blast
  have 2: "genericNumberCb ''locomotive had 368 days out of service'' True []
        \<lparr>index = 15, m0 = ''368'', groups = []\<rparr> [] = []"
    using t 1 by simp
  have 3: "\<exists>L \<in> set [0..<Suc (length ''#4430'')].
         case exec LOCO_NUMBER_GLOBAL ''#4430'' L of
           None \<Rightarrow> False
         | Some m \<Rightarrow> m0 m = ''4430'' \<and> \<not> isFollowedByDayish ''#4430'' (index m + length ''4430'')"
    using day_suffix_rejected [of "''#4430''"] extract_hash_4430 not_keyword_hash_4430 by simp
  show ?thesis
    using 1 2 3 suffix_368_days exec_generic_368_days extract_hash_4430 not_keyword_hash_4430 by simp
qed

text \<open>
  C2, as the claim states it, fails: in \<^verbatim>\<open>"# 4430"\<close> the token at 2 to 6 survives the
  rejections and is added to \<open>locoNos\<close>, although no keyword is near, no \<^verbatim>\<open>#\<close> stands
  immediately before it and the input has no domain context, so that the score the
  claim describes is 0.
\<close>

theorem generic_score_counterexample:
  "exec LOCO_NUMBER_GLOBAL ''# 4430'' 0 = Some \<lparr>index = 2, m0 = ''4430'', groups = []\<rparr>
   \<and> claimedScore ''# 4430'' 2 6 = 0
   \<and> \<not> keywordAttached ''# 4430'' ''4430''
   \<and> map_option locoNos (extractLocoQuery ''# 4430'') = Some [''4430'']"
  using generic_hash_space_4430 by (simp add: extract_hash_space_4430)

text \<open>
  C2, amended: a surviving candidate of the generic pass is added to \<open>locoNos\<close> if and
  only if its score is at least 1, also when it is the only candidate, where the score
  is +2 for keyword proximity, +1 when a \<^verbatim>\<open>#\<close> is among the two units before the
  number, and +1 for domain context in the whole input. So a number that no keyword
  pattern captured is among \<open>locoNos\<close> only with an occurrence of score at least 1, and
  every occurrence that survives the rejections with such a score is among \<open>locoNos\<close>.
  \<^verbatim>\<open>"When is 4430 due next?"\<close> gives \<open>locoNos = ["4430"]\<close>, no names and confidence
  medium, the score 1 coming from the domain context alone.
\<close>

theorem generic_accepted_iff_score:
  "(\<forall>cands st. acceptCandidates cands st =
       (fst st @ map numText (filter (\<lambda>c. 1 \<le> score c) cands),
        snd st @ map (\<lambda>c. \<lparr>kind = locoNoKind, mtext = numText c, start = cstart c, end' = cend c\<rparr>)
                   (filter (\<lambda>c. 1 \<le> score c) cands)))
   \<and> (\<forall>hasDomain s e. candidateScore inp hasDomain s e =
         (if nearKeywords inp s e 20 then 2 else 0)
       + (if CHR ''#'' \<in> set (slice inp (s - 2) s) then 1 else 0)
       + (if hasDomain then 1 else 0))
   \<and> (\<forall>q n. extractLocoQuery inp = Some q \<and> n \<in> set (locoNos q) \<and> \<not> keywordAttached inp n
         \<longrightarrow> (\<exists>L \<in> set [0..<Suc (length inp)].
                case exec LOCO_NUMBER_GLOBAL inp L of
                  None \<Rightarrow> False
                | Some m \<Rightarrow> m0 m = n
                    \<and> 1 \<le> candidateScore inp (hasDomainContext inp) (index m) (index m + length n)))
   \<and> (\<forall>q p m. extractLocoQuery inp = Some q \<and> p \<le> length inp
         \<and> matchAt LOCO_NUMBER_GLOBAL inp p = Some m
         \<and> \<not> isFollowedByDayish inp (p + length (m0 m))
         \<and> \<not> looksLikeCountNumber inp p (p + length (m0 m))
         \<and> \<not> looksLikeYear (Number (m0 m))
         \<and> 1 \<le> candidateScore inp (hasDomainContext inp) p (p + length (m0 m))
         \<longrightarrow> m0 m \<in> set (locoNos q))
   \<and> map_option locoNos (extractLocoQuery ''When is 4430 due next?'') = Some [''4430'']
   \<and> map_option names (extractLocoQuery ''When is 4430 due next?'') = Some []
   \<and> map_option confidence (extractLocoQuery ''When is 4430 due next?'') = Some medium
   \<and> candidateScore ''When is 4430 due next?'' (hasDomainContext ''When is 4430 due next?'') 8 12 = 1
   \<and> \<not> nearKeywords ''When is 4430 due next?'' 8 12 20
   \<and> hasDomainContext ''When is 4430 due next?''"
proof (intro conjI allI impI)
  fix cands st
  show "acceptCandidates cands st =
       (fst st @ map numText (filter (\<lambda>c. 1 \<le> score c) cands),
        snd st @ map (\<lambda>c. \<lparr>kind = locoNoKind, mtext = numText c, start = cstart c, end' = cend c\<rparr>)
                   (filter (\<lambda>c. 1 \<le> score c) cands))"
    by (rule acceptCandidates_eq)
next
  fix hasDomain s e
  show "candidateScore inp hasDomain s e =
         (if nearKeywords inp s e 20 then 2 else 0)
       + (if CHR ''#'' \<in> set (slice inp (s - 2) s) then 1 else 0)
       + (if hasDomain then 1 else 0)"
    by (rule candidateScore_eq)
next
  fix q n
  assume a: "extractLocoQuery inp = Some q \<and> n \<in> set (locoNos q) \<and> \<not> keywordAttached inp n"
  then have "genericAccepted inp n" using locoNos_origin[of inp q n] by simp
  then obtain L where L: "L \<in> set [0..<Suc (length inp)]"
    "case exec LOCO_NUMBER_GLOBAL inp L of
       None \<Rightarrow> False
     | Some m \<Rightarrow> m0 m = n
         \<and> \<not> isFollowedByDayish inp (index m + length n)
         \<and> \<not> looksLikeCountNumber inp (index m) (index m + length n)
         \<and> \<not> looksLikeYear (Number n)
         \<and> candidateScore inp (hasDomainContext inp) (index m) (index m + length n) \<ge> 1"
    unfolding genericAccepted_def by blast
  show "\<exists>L \<in> set [0..<Suc (length inp)].
          case exec LOCO_NUMBER_GLOBAL inp L of
            None \<Rightarrow> False
          | Some m \<Rightarrow> m0 m = n
              \<and> 1 \<le> candidateScore inp (hasDomainContext inp) (index m) (index m + length n)"
    using L by (intro bexI[of _ L]) (auto split: option.splits)
next
  fix q p m
  assume a: "extractLocoQuery inp = Some q \<and> p \<le> length inp
         \<and> matchAt LOCO_NUMBER_GLOBAL inp p = Some m
         \<and> \<not> isFollowedByDayish inp (p + length (m0 m))
         \<and> \<not> looksLikeCountNumber inp p (p + length (m0 m))
         \<and> \<not> looksLikeYear (Number (m0 m))
         \<and> 1 \<le> candidateScore inp (hasDomainContext inp) p (p + length (m0 m))"
  then obtain l where l: "extractLocoNos inp = Some l" "locoNos q = fst l"
    by (auto elim: extractLocoQuery_SomeD)
  from extractLocoNos_generic_complete[OF l(1), of p m] a l(2)
  show "m0 m \<in> set (locoNos q)" by simp
next
  show "map_option locoNos (extractLocoQuery ''When is 4430 due next?'') = Some [''4430'']"
    by (simp add: extract_when_4430)
  show "map_option names (extractLocoQuery ''When is 4430 due next?'') = Some []"
    by (simp add: extract_when_4430)
  show "map_option confidence (extractLocoQuery ''When is 4430 due next?'') = Some medium"
    by (simp add: extract_when_4430)
  show "candidateScore ''When is 4430 due next?'' (hasDomainContext ''When is 4430 due next?'') 8 12 = 1"
    by (rule score_when_4430)
  show "\<not> nearKeywords ''When is 4430 due next?'' 8 12 20" by (rule near_when_4430)
  show "hasDomainContext ''When is 4430 due next?''" by (rule domain_when_4430)
qed

theorem generic_accepted_iff_score_witness:
  "extractLocoQuery ''#4430'' \<noteq> None
   \<and> ''4430'' \<in> set (locoNos (the (extractLocoQuery ''#4430'')))
   \<and> \<not> keywordAttached ''#4430'' ''4430''
   \<and> (\<exists>L \<in> set [0..<Suc (length ''#4430'')].
         case exec LOCO_NUMBER_GLOBAL ''#4430'' L of
           None \<Rightarrow> False
         | Some m \<Rightarrow> m0 m = ''4430''
             \<and> 1 \<le> candidateScore ''#4430'' (hasDomainContext ''#4430'') (index m) (index m + length ''4430''))
   \<and> matchAt LOCO_NUMBER_GLOBAL ''#4430'' 1 = Some \<lparr>index = 1, m0 = ''4430'', groups = []\<rparr>
   \<and> \<not> isFollowedByDayish ''#4430'' (1 + length (m0 \<lparr>index = 1, m0 = ''4430'', groups = []\<rparr>))
   \<and> \<not> looksLikeCountNumber ''#4430'' 1 (1 + length (m0 \<lparr>index = 1, m0 = ''4430'', groups = []\<rparr>))
   \<and> \<not> looksLikeYear (Number (m0 \<lparr>index = 1, m0 = ''4430'', groups = []\<rparr>))
   \<and> 1 \<le> candidateScore ''#4430'' (hasDomainContext ''#4430'') 1
              (1 + length (m0 \<lparr>index = 1, m0 = ''4430'', groups = []\<rparr>))
   \<and> m0 \<lparr>index = 1, m0 = ''4430'', groups = []\<rparr> \<in> set (locoNos (the (extractLocoQuery ''#4430'')))"
proof -
  note t = generic_accepted_iff_score [of "''#4430''"]
  have 1: "\<exists>L \<in> set [0..<Suc (length ''#4430'')].
         case exec LOCO_NUMBER_GLOBAL ''#4430'' L of
           None \<Rightarrow> False
         | Some m \<Rightarrow> m0 m = ''4430''
             \<and> 1 \<le> candidateScore ''#4430'' (hasDomainContext ''#4430'') (index m) (index m + length ''4430'')"
    using t extract_hash_4430 not_keyword_hash_4430 by simp
  have 2: "m0 \<lparr>index = 1, m0 = ''4430'', groups = []\<rparr> \<in> set (locoNos (the (extractLocoQuery ''#4430'')))"
    by (rule t[THEN conjunct2, THEN conjunct2, THEN conjunct2, THEN conjunct1, rule_format,
              of "the (extractLocoQuery ''#4430'')" 1 "\<lparr>index = 1, m0 = ''4430'', groups = []\<rparr>"])
       (rule generic_hash_4430)
  have 3: "extractLocoQuery ''#4430'' \<noteq> None \<and> ''4430'' \<in> set (locoNos (the (extractLocoQuery ''#4430'')))"
    by (simp add: extract_hash_4430)
  show ?thesis
    using 1 2 3 not_keyword_hash_4430 generic_hash_4430 by (intro conjI) (simp_all only: simp_thms)
qed



text \<open>
  C4: the keyword pattern names \<^verbatim>\<open>loco\<close>, \<^verbatim>\<open>locomotive\<close>, \<^verbatim>\<open>unit\<close>, \<^verbatim>\<open>engine\<close>,
  \<^verbatim>\<open>locos\<close>, \<^verbatim>\<open>units\<close> and \<^verbatim>\<open>engines\<close>, but not the plural \<^verbatim>\<open>locomotives\<close>. In
  \<^verbatim>\<open>"locomotives 4430"\<close> neither keyword pattern matches, the generic pass finds the
  number with score 0, and \<open>locoNos\<close> is empty, whereas \<^verbatim>\<open>"locos 4430"\<close> gives
  \<^verbatim>\<open>["4430"]\<close>.
\<close>

theorem plural_locomotives_missed:
  "map_option locoNos (extractLocoQuery ''locomotives 4430'') = Some []
   \<and> exec LOCO_KEYWORD_NUMBER_GLOBAL ''locomotives 4430'' 0 = None
   \<and> exec LOCO_KEYWORD_NUMBER_CONCAT_GLOBAL ''locomotives 4430'' 0 = None
   \<and> exec LOCO_NUMBER_GLOBAL ''locomotives 4430'' 0 = Some \<lparr>index = 12, m0 = ''4430'', groups = []\<rparr>
   \<and> candidateScore ''locomotives 4430'' (hasDomainContext ''locomotives 4430'') 12 16 = 0
   \<and> map_option locoNos (extractLocoQuery ''locos 4430'') = Some [''4430'']"
  using exec_keyword_locomotives_4430
  by (simp add: extract_locomotives_4430 extract_locos_4430)

text \<open>
  C8: the result is well formed. Read as the order of first occurrence in the input, the
  order clause fails: in \<^verbatim>\<open>"status 903 loco 4430"\<close> the number 903 stands at offset 7 and
  4430 at offset 16, and \<open>locoNos\<close> is \<^verbatim>\<open>["4430", "903"]\<close>, because the keyword passes push
  before the generic pass.
\<close>

theorem input_order_counterexample:
  "map_option locoNos (extractLocoQuery ''status 903 loco 4430'') = Some [''4430'', ''903'']
   \<and> indexOf ''status 903 loco 4430'' ''903'' = 7
   \<and> indexOf ''status 903 loco 4430'' ''4430'' = 16"
  by (simp add: extract_status_903_loco_4430 indexOf_903 indexOf_4430)

text \<open>
  C8, amended: \<open>assetIds\<close>, \<open>locoNos\<close> and \<open>names\<close> of the result have no duplicates, and
  each keeps the first push of every value in the order in which the passes of its
  extractor push them. The asset ids are the matches of the id pattern in the order of the
  scan, in lower case. The loco numbers are the numbers captured by the keyword pattern,
  then those captured by the concatenated keyword pattern, then the generic numbers that
  pass the rejections with a score of at least 1. The names are the no-space names, then
  the number phrases, then the model tokens that are not a substring of a name collected
  before them. Within a pass the order is that of the scan, which visits the input from
  left to right. Every raw match has \<open>0 \<le> start < end \<le> length input\<close>, and the raw matches
  are sorted by \<open>start\<close>.
\<close>

theorem result_well_formed_pass_order:
  "extractLocoQuery inp = Some q \<Longrightarrow>
     distinct (assetIds q) \<and> distinct (locoNos q) \<and> distinct (names q)
   \<and> assetIds q = firstOccurrences
        (map (\<lambda>m. toLowerCase (m0 m)) (scanMatches ASSET_ID_REGEX_GLOBAL inp))
   \<and> locoNos q = firstOccurrences
        (map (\<lambda>m. grp m 2) (scanMatches LOCO_KEYWORD_NUMBER_GLOBAL inp)
         @ map (\<lambda>m. grp m 2) (scanMatches LOCO_KEYWORD_NUMBER_CONCAT_GLOBAL inp)
         @ map m0 (filter (genericKept inp) (scanMatches LOCO_NUMBER_GLOBAL inp)))
   \<and> names q = fold addModelToken
        (map m0 (filter (modelTokenKept inp) (scanMatches MODEL_TOKEN_GLOBAL inp)))
        (firstOccurrences
           (map noSpaceName (filter noSpaceKept (scanMatches LOCO_NAME_NOSPACE_GLOBAL inp))
            @ List.map_filter (namePhrase inp) (scanMatches LOCO_NUMBER_START_GLOBAL inp)))
   \<and> (\<forall>re. sorted_wrt (\<lambda>a b. index a < index b) (scanMatches re inp))
   \<and> (\<forall>r \<in> set (rawMatches q). 0 \<le> start r \<and> start r < end' r \<and> end' r \<le> length inp)
   \<and> sorted (map start (rawMatches q))"
proof -
  assume q: "extractLocoQuery inp = Some q"
  from q obtain a l n where
    a: "extractAssetIds inp = Some a" and l: "extractLocoNos inp = Some l" and n: "extractNames inp = Some n"
    and qd: "q = \<lparr>input = inp, assetIds = fst a, locoNos = fst l, names = fst n,
          assetId = first (fst a), locoNo = first (fst l), name = first (fst n),
          rawMatches = sort_key start (snd a @ snd l @ snd n),
          confidence = computeConfidence (fst a) (fst l) (fst n)\<rparr>"
    by (rule extractLocoQuery_SomeD)
  from a have d1: "distinct (assetIds q)"
    by (auto simp: qd extractAssetIds_def uniq_distinct split: Option.bind_splits)
  from l have d2: "distinct (locoNos q)"
    by (auto simp: qd extractLocoNos_def Let_def uniq_distinct split: Option.bind_splits)
  from n have d3: "distinct (names q)"
    by (auto simp: qd extractNames_def uniq_distinct split: Option.bind_splits)
  have o1: "assetIds q = firstOccurrences
        (map (\<lambda>m. toLowerCase (m0 m)) (scanMatches ASSET_ID_REGEX_GLOBAL inp))"
    using extractAssetIds_order[OF a] by (simp add: qd)
  have o2: "locoNos q = firstOccurrences
        (map (\<lambda>m. grp m 2) (scanMatches LOCO_KEYWORD_NUMBER_GLOBAL inp)
         @ map (\<lambda>m. grp m 2) (scanMatches LOCO_KEYWORD_NUMBER_CONCAT_GLOBAL inp)
         @ map m0 (filter (genericKept inp) (scanMatches LOCO_NUMBER_GLOBAL inp)))"
    using extractLocoNos_order[OF l] by (simp add: qd)
  have o3: "names q = fold addModelToken
        (map m0 (filter (modelTokenKept inp) (scanMatches MODEL_TOKEN_GLOBAL inp)))
        (firstOccurrences
           (map noSpaceName (filter noSpaceKept (scanMatches LOCO_NAME_NOSPACE_GLOBAL inp))
            @ List.map_filter (namePhrase inp) (scanMatches LOCO_NUMBER_START_GLOBAL inp)))"
    using extractNames_order[OF n] by (simp add: qd)
  have sc: "\<forall>re. sorted_wrt (\<lambda>a b. index a < index b) (scanMatches re inp)"
    by (simp add: scanMatches_sorted)
  have sp: "\<forall>r \<in> set (rawMatches q). 0 \<le> start r \<and> start r < end' r \<and> end' r \<le> length inp"
    using extractAssetIds_spans[OF a] extractLocoNos_spans[OF l] extractNames_spans[OF n]
    by (auto simp: qd okSpan_def)
  have so: "sorted (map start (rawMatches q))" by (simp add: qd)
  from d1 d2 d3 o1 o2 o3 sc sp so show ?thesis by blast
qed

theorem result_well_formed_pass_order_witness:
  "extractLocoQuery ''status 903 loco 4430'' \<noteq> None
   \<and> locoNos (the (extractLocoQuery ''status 903 loco 4430''))
       = firstOccurrences ([''4430''] @ [] @ [''903'', ''4430''])
   \<and> locoNos (the (extractLocoQuery ''status 903 loco 4430'')) = [''4430'', ''903'']
   \<and> distinct (locoNos (the (extractLocoQuery ''status 903 loco 4430'')))
   \<and> \<lparr>kind = locoNoKind, mtext = ''903'', start = 7, end' = 10\<rparr>
        \<in> set (rawMatches (the (extractLocoQuery ''status 903 loco 4430'')))
   \<and> (7::nat) < 10 \<and> (10::nat) \<le> length ''status 903 loco 4430''
   \<and> sorted (map start (rawMatches (the (extractLocoQuery ''status 903 loco 4430''))))
   \<and> extractLocoQuery ''loco 4430 SD70M'' \<noteq> None
   \<and> names (the (extractLocoQuery ''loco 4430 SD70M''))
       = fold addModelToken [''SD70M''] (firstOccurrences ([] @ [''4430 SD70M'']))
   \<and> names (the (extractLocoQuery ''loco 4430 SD70M'')) = [''4430 SD70M'']"
proof -
  let ?q = "the (extractLocoQuery ''status 903 loco 4430'')"
  let ?p = "the (extractLocoQuery ''loco 4430 SD70M'')"
  have e: "extractLocoQuery ''status 903 loco 4430'' = Some ?q"
    by (simp add: extract_status_903_loco_4430)
  have f: "extractLocoQuery ''loco 4430 SD70M'' = Some ?p"
    by (simp add: extract_loco_4430_SD70M)
  note w = result_well_formed_pass_order [OF e]
  note v = result_well_formed_pass_order [OF f]
  have 1: "locoNos ?q = firstOccurrences ([''4430''] @ [] @ [''903'', ''4430''])"
    using w unfolding keyword_scan_status_903 concat_scan_status_903 generic_scan_status_903
    by blast
  have 2: "distinct (locoNos ?q)" using w by blast
  have 3: "\<forall>r \<in> set (rawMatches ?q). 0 \<le> start r \<and> start r < end' r \<and> end' r \<le> length ''status 903 loco 4430''"
    using w by blast
  have 4: "sorted (map start (rawMatches ?q))" using w by blast
  have 5: "names ?p = fold addModelToken [''SD70M''] (firstOccurrences ([] @ [''4430 SD70M'']))"
    using v unfolding nospace_scan_loco_4430_SD70M phrase_scan_loco_4430_SD70M token_scan_loco_4430_SD70M
    by blast
  have r: "\<lparr>kind = locoNoKind, mtext = ''903'', start = 7, end' = 10\<rparr> \<in> set (rawMatches ?q)"
    by (simp add: extract_status_903_loco_4430)
  from 3 r have 6: "(7::nat) < 10 \<and> (10::nat) \<le> length ''status 903 loco 4430''" by fastforce
  have 7: "locoNos ?q = [''4430'', ''903'']" using 1 by (simp add: firstOccurrences_def)
  have 8: "names ?p = [''4430 SD70M'']"
    using 5 by (simp add: firstOccurrences_eval addModelToken_SD70M)
  have 9: "extractLocoQuery ''status 903 loco 4430'' \<noteq> None" "extractLocoQuery ''loco 4430 SD70M'' \<noteq> None"
    by (simp_all add: extract_status_903_loco_4430 extract_loco_4430_SD70M)
  from 1 2 r 6 4 5 7 8 9 show ?thesis by blast
qed

end
